theory Spec2Isabelle
  imports Main "HOL-Library.Word"
begin

unbundle bit_operations_syntax

section \<open>The dynamic memory manager of memmgr.c\<close>

text \<open>
  The allocator works on raw memory through pointer-sized words. Pointers and sizes are
  64-bit words (\<open>void *\<close>, \<open>size_t\<close> and \<open>unsigned long\<close> on the target), so every
  addition and subtraction wraps as the machine's does. Memory is a store of bytes; a tag
  is read and written as eight bytes in little-endian order.
\<close>

type_synonym addr = "64 word"
type_synonym ulong = "64 word"
type_synonym memory = "addr \<Rightarrow> 8 word"

subsection \<open>Words in memory\<close>

definition byte_at :: "memory \<Rightarrow> addr \<Rightarrow> nat \<Rightarrow> ulong" where
  "byte_at m p i = push_bit (8 * i) (ucast (m (p + of_nat i)))"

text \<open>\<open>GET(p)\<close>: \<open>*(TYPE* )(p)\<close>.\<close>

definition GET :: "memory \<Rightarrow> addr \<Rightarrow> ulong" where
  "GET m p = byte_at m p 0 OR byte_at m p 1 OR byte_at m p 2 OR byte_at m p 3
          OR byte_at m p 4 OR byte_at m p 5 OR byte_at m p 6 OR byte_at m p 7"

text \<open>\<open>PUT(p,val)\<close>: \<open>*(TYPE* )(p) = (val)\<close>.\<close>

definition PUT :: "memory \<Rightarrow> addr \<Rightarrow> ulong \<Rightarrow> memory" where
  "PUT m p v = (\<lambda>a. if a - p < 8 then ucast (drop_bit (8 * unat (a - p)) v) else m a)"

text \<open>\<open>memset(p, c, n)\<close> and \<open>memcpy(dst, src, n)\<close> of the C library, on bytes.\<close>

definition memset :: "memory \<Rightarrow> addr \<Rightarrow> 8 word \<Rightarrow> ulong \<Rightarrow> memory" where
  "memset m p c n = (\<lambda>a. if a - p < n then c else m a)"

definition memcpy :: "memory \<Rightarrow> addr \<Rightarrow> addr \<Rightarrow> ulong \<Rightarrow> memory" where
  "memcpy m dst src n = (\<lambda>a. if a - dst < n then m (src + (a - dst)) else m a)"

subsection \<open>Macros\<close>

definition TYPE_SIZE :: ulong where "TYPE_SIZE = 8"
definition ALLOC :: ulong where "ALLOC = 1"
definition FREE :: ulong where "FREE = 0"
definition STATUS_MASK :: ulong where "STATUS_MASK = 7"
definition SIZE_MASK :: ulong where "SIZE_MASK = NOT STATUS_MASK"
definition CHUNKSIZE :: ulong where "CHUNKSIZE = 4096"
definition BS :: ulong where "BS = 32"
definition UINT_MAX :: ulong where "UINT_MAX = 4294967295"
definition NULL :: addr where "NULL = 0"

definition PREV_PTR :: "addr \<Rightarrow> addr" where "PREV_PTR p = p - TYPE_SIZE"
definition NEXT_PTR :: "addr \<Rightarrow> addr" where "NEXT_PTR p = p + TYPE_SIZE"
definition HDRP :: "addr \<Rightarrow> addr" where "HDRP bp = PREV_PTR bp"

definition PACK :: "ulong \<Rightarrow> ulong \<Rightarrow> ulong" where "PACK sz status = sz OR status"
definition SIZE :: "ulong \<Rightarrow> ulong" where "SIZE v = v AND SIZE_MASK"
definition STATUS :: "ulong \<Rightarrow> ulong" where "STATUS v = v AND STATUS_MASK"

definition GET_SIZE :: "memory \<Rightarrow> addr \<Rightarrow> ulong" where "GET_SIZE m p = SIZE (GET m p)"
definition GET_STATUS :: "memory \<Rightarrow> addr \<Rightarrow> ulong" where "GET_STATUS m p = STATUS (GET m p)"

definition FTRP :: "memory \<Rightarrow> addr \<Rightarrow> addr" where
  "FTRP m bp = HDRP bp + GET_SIZE m (HDRP bp) - TYPE_SIZE"

definition PREV_BLK_PTR :: "memory \<Rightarrow> addr \<Rightarrow> addr" where
  "PREV_BLK_PTR m bp = bp - GET_SIZE m (PREV_PTR (HDRP bp))"

definition NEXT_BLK_PTR :: "memory \<Rightarrow> addr \<Rightarrow> addr" where
  "NEXT_BLK_PTR m bp = bp + GET_SIZE m (HDRP bp)"

subsection \<open>Global state\<close>

text \<open>
  Modelled from the spec: the \<open>AllocationPolicy\<close> enumeration of memmgr.h, which is not
  part of the sources; the spec gives its three values.
\<close>

datatype AllocationPolicy = ap_FirstFit | ap_NextFit | ap_BestFit

text \<open>
  \<open>PANIC\<close> prints a message and leaves the process; a failed \<open>assert\<close> aborts it. A call
  through the function pointer \<open>get_free_block\<close> while it is still \<open>NULL\<close> cannot return
  either.
\<close>

datatype error = Panic string | AssertionFailed | NullCall

text \<open>
  The global variables of memmgr.c together with the memory and the state of the region
  provider. The logging level has no influence on any other variable and is left out.

  Modelled from the spec: the region provider (the dataseg module, not part of the
  sources) with \<open>query\<close>, \<open>grow\<close> and \<open>pageSize\<close>: it owns the raw range from
  \<open>prov_start\<close> to \<open>prov_brk\<close> and refuses to grow beyond \<open>prov_limit\<close>.
\<close>

record heap =
  mem :: memory
  prov_start :: addr
  prov_brk :: addr
  prov_limit :: addr
  prov_pagesize :: int
  ds_heap_start :: addr
  ds_heap_brk :: addr
  heap_start :: addr
  heap_end :: addr
  PAGESIZE :: int
  get_free_block :: "AllocationPolicy option"
  mm_initialized :: bool
  nf_ptr :: addr
  nf :: bool

text \<open>Modelled from the spec: \<open>query() \<rightarrow> (regionStart, regionBreak)\<close>.\<close>

definition ds_heap_stat :: "heap \<Rightarrow> heap" where
  "ds_heap_stat h = h\<lparr>ds_heap_start := prov_start h, ds_heap_brk := prov_brk h\<rparr>"

text \<open>Modelled from the spec: \<open>pageSize() \<rightarrow> positive integer\<close>.\<close>

definition ds_getpagesize :: "heap \<Rightarrow> int" where
  "ds_getpagesize h = prov_pagesize h"

text \<open>
  Modelled from the spec: \<open>grow(n) \<rightarrow> previousBreak | failure\<close>; the failure value is
  \<open>(void* )-1\<close>, as the callers test.
\<close>

definition ds_sbrk :: "heap \<Rightarrow> ulong \<Rightarrow> heap \<times> addr" where
  "ds_sbrk h n =
     (if unat (prov_brk h) + unat n \<le> unat (prov_limit h)
      then (h\<lparr>prov_brk := prov_brk h + n\<rparr>, prov_brk h)
      else (h, - 1))"

subsection \<open>Initialisation\<close>

definition mm_init :: "heap \<Rightarrow> AllocationPolicy \<Rightarrow> error + heap" where
  "mm_init h0 ap =
    (let h1 = h0\<lparr>get_free_block := Some ap\<rparr>;
         h2 = ds_heap_stat h1;
         h3 = h2\<lparr>PAGESIZE := ds_getpagesize h2\<rparr>
     in if ds_heap_start h3 = NULL then Inl (Panic ''Data segment not initialized.'')
        else if ds_heap_start h3 \<noteq> ds_heap_brk h3 then Inl (Panic ''Heap not clean.'')
        else if PAGESIZE h3 = 0 then Inl (Panic ''Reported pagesize == 0.'')
        else
          (case ds_sbrk h3 CHUNKSIZE of (h4, r) \<Rightarrow>
             if r = - 1 then Inl (Panic ''ds_sbrk in mm_init'')
             else
               (let h5 = ds_heap_stat h4;
                    hs = (ds_heap_start h5 div BS + 1) * BS;
                    he = (ds_heap_brk h5 div BS - 1) * BS;
                    m1 = PUT (mem h5) (PREV_PTR hs) (PACK 0 ALLOC);
                    m2 = PUT m1 he (PACK 0 ALLOC);
                    m3 = PUT m2 hs (PACK (he - hs) FREE);
                    m4 = PUT m3 (PREV_PTR he) (PACK (he - hs) FREE);
                    h6 = h5\<lparr>mem := m4, heap_start := hs, heap_end := he\<rparr>;
                    h7 = (if ap = ap_NextFit then h6\<lparr>nf := True, nf_ptr := hs\<rparr> else h6)
                in Inr (h7\<lparr>mm_initialized := True\<rparr>))))"

subsection \<open>Coalescing and heap extension\<close>

text \<open>
  \<open>coalesce\<close> touches nothing but memory. Every macro reads the memory as the preceding
  stores have left it, as in the C text.
\<close>

definition coalesce :: "memory \<Rightarrow> addr \<Rightarrow> memory \<times> addr" where
  "coalesce m bp =
    (let sz = GET_SIZE m (HDRP bp);
         prev_blk_ftrp = PREV_PTR (HDRP bp);
         next_blk_hdrp = NEXT_PTR (FTRP m bp);
         prev_alloc = GET_STATUS m prev_blk_ftrp;
         next_alloc = GET_STATUS m next_blk_hdrp
     in if prev_alloc \<noteq> 0 \<and> next_alloc = 0 then
          (let sz1 = sz + GET_SIZE m next_blk_hdrp;
               m1 = PUT m (HDRP bp) (PACK sz1 FREE);
               m2 = PUT m1 (FTRP m1 bp) (PACK sz1 FREE)
           in (m2, bp))
        else if prev_alloc = 0 \<and> next_alloc \<noteq> 0 then
          (let sz1 = sz + GET_SIZE m prev_blk_ftrp;
               m1 = PUT m (HDRP (PREV_BLK_PTR m bp)) (PACK sz1 FREE);
               m2 = PUT m1 (FTRP m1 bp) (PACK sz1 FREE)
           in (m2, PREV_BLK_PTR m2 bp))
        else if prev_alloc = 0 \<and> next_alloc = 0 then
          (let sz1 = sz + (GET_SIZE m prev_blk_ftrp + GET_SIZE m next_blk_hdrp);
               m1 = PUT m (HDRP (PREV_BLK_PTR m bp)) (PACK sz1 FREE);
               m2 = PUT m1 (FTRP m1 (NEXT_BLK_PTR m1 bp)) (PACK sz1 FREE)
           in (m2, PREV_BLK_PTR m2 bp))
        else (m, bp))"

definition extend_heap :: "heap \<Rightarrow> ulong \<Rightarrow> error + heap \<times> addr" where
  "extend_heap h0 sz =
    (case ds_sbrk h0 sz of (h1, old_heap_brk) \<Rightarrow>
       if old_heap_brk = - 1 then Inl (Panic ''Error when extend heap'')
       else
         (let old_end_sentinel_size = old_heap_brk - heap_end h1;
              m1 = PUT (mem h1) (heap_end h1) (PACK old_end_sentinel_size FREE);
              m2 = PUT m1 (FTRP m1 (NEXT_PTR (heap_end h1))) (PACK old_end_sentinel_size FREE);
              h2 = ds_heap_stat h1;
              m3 = PUT m2 (ds_heap_brk h2 - 4 * TYPE_SIZE) (PACK 0 ALLOC);
              he = ds_heap_brk h2 - 4 * TYPE_SIZE;
              added_block_size = he - old_heap_brk;
              m4 = PUT m3 old_heap_brk (PACK added_block_size FREE);
              m5 = PUT m4 (FTRP m4 (NEXT_PTR old_heap_brk)) (PACK added_block_size FREE)
          in case coalesce m5 (PREV_BLK_PTR m5 (NEXT_PTR old_heap_brk)) of (m6, bp) \<Rightarrow>
               Inr (h2\<lparr>mem := m6, heap_end := he\<rparr>, bp)))"

subsection \<open>Free block search\<close>

text \<open>
  The three scans are loops over the block sequence whose step is the sz read from
  memory; on a damaged heap they need not end, so each loop is a partial function and
  \<open>None\<close> stands for a scan that never returns.
\<close>

partial_function (option) ff_loop :: "memory \<Rightarrow> addr \<Rightarrow> ulong \<Rightarrow> addr \<Rightarrow> addr option" where
  "ff_loop m he sz traverse_ptr =
    (if traverse_ptr < he then
       (let val = GET_SIZE m traverse_ptr;
            flag = GET_STATUS m traverse_ptr
        in if flag = FREE \<and> val \<ge> sz then Some traverse_ptr
           else ff_loop m he sz (traverse_ptr + val))
     else Some NULL)"

declare ff_loop.simps [code]

definition ff_get_free_block :: "heap \<Rightarrow> ulong \<Rightarrow> (error + heap \<times> addr) option" where
  "ff_get_free_block h sz =
    (if \<not> mm_initialized h then Some (Inl AssertionFailed)
     else map_option (\<lambda>ret_ptr. Inr (h, ret_ptr))
            (ff_loop (mem h) (heap_end h) sz (heap_start h)))"

text \<open>
  The \<open>do ... while\<close> loop of next fit; the result is the block found and the new value
  of \<open>nf_ptr\<close>. The \<open>continue\<close> after the wrap to \<open>heap_start\<close> jumps to the loop test.
\<close>

partial_function (option) nf_loop ::
  "memory \<Rightarrow> addr \<Rightarrow> addr \<Rightarrow> addr \<Rightarrow> ulong \<Rightarrow> addr \<Rightarrow> (addr \<times> addr) option" where
  "nf_loop m hs he nfp sz traverse_ptr =
    (if traverse_ptr = he then
       (if hs \<noteq> nfp then nf_loop m hs he nfp sz hs else Some (NULL, nfp))
     else
       (let val = GET_SIZE m traverse_ptr;
            flag = GET_STATUS m traverse_ptr
        in if flag = FREE \<and> val \<ge> sz then Some (traverse_ptr, traverse_ptr)
           else if traverse_ptr + val \<noteq> nfp then nf_loop m hs he nfp sz (traverse_ptr + val)
           else Some (NULL, nfp)))"

declare nf_loop.simps [code]

definition nf_get_free_block :: "heap \<Rightarrow> ulong \<Rightarrow> (error + heap \<times> addr) option" where
  "nf_get_free_block h sz =
    (if \<not> mm_initialized h then Some (Inl AssertionFailed)
     else map_option (\<lambda>(ret_ptr, nfp). Inr (h\<lparr>nf_ptr := nfp\<rparr>, ret_ptr))
            (nf_loop (mem h) (heap_start h) (heap_end h) (nf_ptr h) sz (nf_ptr h)))"

partial_function (option) bf_loop ::
  "memory \<Rightarrow> addr \<Rightarrow> ulong \<Rightarrow> addr \<Rightarrow> ulong \<Rightarrow> addr \<Rightarrow> addr option" where
  "bf_loop m he sz bf_ptr bf_fragmentation traverse_ptr =
    (if traverse_ptr < he then
       (let val = GET_SIZE m traverse_ptr;
            flag = GET_STATUS m traverse_ptr
        in if flag = FREE \<and> val \<ge> sz \<and> val - sz < bf_fragmentation
           then bf_loop m he sz traverse_ptr (val - sz) (traverse_ptr + val)
           else bf_loop m he sz bf_ptr bf_fragmentation (traverse_ptr + val))
     else Some bf_ptr)"

declare bf_loop.simps [code]

definition bf_get_free_block :: "heap \<Rightarrow> ulong \<Rightarrow> (error + heap \<times> addr) option" where
  "bf_get_free_block h sz =
    (if \<not> mm_initialized h then Some (Inl AssertionFailed)
     else map_option (\<lambda>bf_ptr. Inr (h, bf_ptr))
            (bf_loop (mem h) (heap_end h) sz NULL UINT_MAX (heap_start h)))"

text \<open>The call through the function pointer \<open>get_free_block\<close>.\<close>

definition call_get_free_block :: "heap \<Rightarrow> ulong \<Rightarrow> (error + heap \<times> addr) option" where
  "call_get_free_block h sz =
    (case get_free_block h of
       None \<Rightarrow> Some (Inl NullCall)
     | Some ap_FirstFit \<Rightarrow> ff_get_free_block h sz
     | Some ap_NextFit \<Rightarrow> nf_get_free_block h sz
     | Some ap_BestFit \<Rightarrow> bf_get_free_block h sz)"

subsection \<open>Request sz\<close>

text \<open>
  \<open>ceil((double)(sz + 2*TYPE_SIZE) / BS) * BS\<close>. The sum is a \<open>size_t\<close> and wraps.
  Its conversion to \<open>double\<close> rounds to 53 significant bits, to nearest and ties to even;
  the division by 32, \<open>ceil\<close> and the multiplication by 32 are exact on the values that
  occur, so the result is computed on natural numbers. The conversion back to \<open>size_t\<close>
  is taken modulo \<open>2^64\<close> (the one value out of range is \<open>2^64\<close> itself).
\<close>

fun bit_length :: "nat \<Rightarrow> nat" where
  "bit_length n = (if n = 0 then 0 else Suc (bit_length (n div 2)))"

definition to_double :: "nat \<Rightarrow> nat" where
  "to_double n =
    (if n < 2 ^ 53 then n
     else (let k = bit_length n - 53;
               q = n div 2 ^ k;
               r = n mod 2 ^ k
           in (if 2 * r < 2 ^ k \<or> (2 * r = 2 ^ k \<and> even q) then q else q + 1) * 2 ^ k))"

definition alloc_size_of :: "ulong \<Rightarrow> ulong" where
  "alloc_size_of sz =
     of_nat ((to_double (unat (sz + 2 * TYPE_SIZE)) + 31) div 32 * 32)"

subsection \<open>Allocation, release and resizing\<close>

text \<open>The loop \<open>while(addr == NULL) { extend_heap(CHUNKSIZE); addr = get_free_block(alloc_size); }\<close>,
  entered with the result of the first search.\<close>

partial_function (option) mm_malloc_loop ::
  "ulong \<Rightarrow> heap \<Rightarrow> addr \<Rightarrow> (error + heap \<times> addr) option" where
  "mm_malloc_loop alloc_size h a =
    (if a = NULL then
       (case extend_heap h CHUNKSIZE of
          Inl e \<Rightarrow> Some (Inl e)
        | Inr (h1, bp) \<Rightarrow>
            Option.bind (call_get_free_block h1 alloc_size)
              (\<lambda>r. case r of Inl e \<Rightarrow> Some (Inl e)
                    | Inr (h2, a2) \<Rightarrow> mm_malloc_loop alloc_size h2 a2))
     else Some (Inr (h, a)))"

declare mm_malloc_loop.simps [code]

definition place :: "memory \<Rightarrow> addr \<Rightarrow> ulong \<Rightarrow> memory" where
  "place m a alloc_size =
    (let actual_alloc_size = GET_SIZE m a;
         m1 = PUT m a (PACK alloc_size ALLOC);
         m2 = PUT m1 (FTRP m1 (NEXT_PTR a)) (PACK alloc_size ALLOC)
     in if actual_alloc_size > alloc_size then
          (let split_blk = a + alloc_size;
               m3 = PUT m2 split_blk (PACK (actual_alloc_size - alloc_size) FREE);
               m4 = PUT m3 (FTRP m3 (NEXT_PTR split_blk)) (PACK (actual_alloc_size - alloc_size) FREE)
           in m4)
        else m2)"

definition mm_malloc :: "heap \<Rightarrow> ulong \<Rightarrow> (error + heap \<times> addr) option" where
  "mm_malloc h sz =
    (if \<not> mm_initialized h then Some (Inl AssertionFailed)
     else
       (let alloc_size = alloc_size_of sz
        in Option.bind (call_get_free_block h alloc_size)
             (\<lambda>r. case r of Inl e \<Rightarrow> Some (Inl e)
                   | Inr (h1, a1) \<Rightarrow>
                       Option.bind (mm_malloc_loop alloc_size h1 a1)
                         (\<lambda>r. case r of Inl e \<Rightarrow> Some (Inl e)
                               | Inr (h2, a) \<Rightarrow>
                                   Some (Inr (h2\<lparr>mem := place (mem h2) a alloc_size\<rparr>,
                                              NEXT_PTR a))))))"

definition mm_free :: "heap \<Rightarrow> addr \<Rightarrow> error + heap" where
  "mm_free h bp =
    (if \<not> mm_initialized h then Inl AssertionFailed
     else if bp = NULL then Inr h
     else
       (let h1 = (if nf h \<and> HDRP bp = nf_ptr h then h\<lparr>nf_ptr := heap_start h\<rparr> else h);
            sz = GET_SIZE (mem h1) (HDRP bp);
            m1 = PUT (mem h1) (HDRP bp) (PACK sz FREE);
            m2 = PUT m1 (FTRP m1 bp) (PACK sz FREE)
        in Inr (h1\<lparr>mem := fst (coalesce m2 bp)\<rparr>)))"

definition mm_calloc :: "heap \<Rightarrow> ulong \<Rightarrow> ulong \<Rightarrow> (error + heap \<times> addr) option" where
  "mm_calloc h nmemb sz =
    (if \<not> mm_initialized h then Some (Inl AssertionFailed)
     else if nmemb = 0 \<or> sz = 0 then Some (Inr (h, NULL))
     else if UINT_MAX div nmemb < sz
       then Some (Inl (Panic ''Arithmetic overflow while mm_calloc''))
     else
       Option.bind (mm_malloc h (nmemb * sz))
         (\<lambda>r. case r of Inl e \<Rightarrow> Some (Inl e)
               | Inr (h1, payload) \<Rightarrow>
                   Some (Inr (if payload \<noteq> NULL
                              then h1\<lparr>mem := memset (mem h1) payload 0 (nmemb * sz)\<rparr>
                              else h1, payload))))"

text \<open>
  The part of \<open>mm_realloc\<close> after its two opening tests, which both fall through to it.
\<close>

definition realloc_body :: "heap \<Rightarrow> addr \<Rightarrow> ulong \<Rightarrow> (error + heap \<times> addr) option" where
  "realloc_body h bp sz =
    (let org_hdrp = HDRP bp;
         org_size = GET_SIZE (mem h) org_hdrp;
         alloc_size = alloc_size_of sz
     in if alloc_size < org_size then
          (let m1 = PUT (mem h) org_hdrp (PACK alloc_size ALLOC);
               m2 = PUT m1 (FTRP m1 bp) (PACK alloc_size ALLOC);
               next_bp = NEXT_BLK_PTR m2 bp;
               m3 = PUT m2 (HDRP next_bp) (PACK (org_size - alloc_size) FREE);
               m4 = PUT m3 (FTRP m3 next_bp) (PACK (org_size - alloc_size) FREE)
           in Some (Inr (h\<lparr>mem := fst (coalesce m4 next_bp)\<rparr>, bp)))
        else if alloc_size > org_size then
          (let next_bp = NEXT_BLK_PTR (mem h) bp;
               next_blk_size = GET_SIZE (mem h) (HDRP next_bp)
           in if GET_STATUS (mem h) (HDRP next_bp) = FREE
                 \<and> next_blk_size \<ge> alloc_size - org_size then
                (let m1 = PUT (mem h) org_hdrp (PACK alloc_size ALLOC);
                     m2 = PUT m1 (FTRP m1 bp) (PACK alloc_size ALLOC)
                 in if next_blk_size > alloc_size - org_size then
                      (let splitted_bp = NEXT_BLK_PTR m2 bp;
                           splitted_blk_size = next_blk_size - (alloc_size - org_size);
                           m3 = PUT m2 (HDRP splitted_bp) (PACK splitted_blk_size FREE);
                           m4 = PUT m3 (FTRP m3 splitted_bp) (PACK splitted_blk_size FREE)
                       in Some (Inr (h\<lparr>mem := m4\<rparr>, bp)))
                    else Some (Inr (h\<lparr>mem := m2\<rparr>, bp)))
              else
                Option.bind (mm_malloc h sz)
                  (\<lambda>r. case r of Inl e \<Rightarrow> Some (Inl e)
                        | Inr (h1, new_bp) \<Rightarrow>
                            (let payload_size = org_size - 2 * TYPE_SIZE
                             in case mm_free h1 bp of Inl e \<Rightarrow> Some (Inl e)
                                | Inr h2 \<Rightarrow>
                                    Some (Inr (h2\<lparr>mem := memcpy (mem h2) new_bp bp payload_size\<rparr>,
                                               new_bp)))))
        else Some (Inr (h, bp)))"

definition mm_realloc :: "heap \<Rightarrow> addr \<Rightarrow> ulong \<Rightarrow> (error + heap \<times> addr) option" where
  "mm_realloc h bp sz =
    (if \<not> mm_initialized h then Some (Inl AssertionFailed)
     else
       Option.bind (if bp = NULL then mm_malloc h sz else Some (Inr (h, bp)))
         (\<lambda>r. case r of Inl e \<Rightarrow> Some (Inl e)
               | Inr (h1, bp1) \<Rightarrow>
                   (case (if sz = 0 then mm_free h1 bp1 else Inr h1) of
                      Inl e \<Rightarrow> Some (Inl e)
                    | Inr h2 \<Rightarrow> realloc_body h2 bp1 sz)))"

subsection \<open>Reading results and a concrete region\<close>

text \<open>
  A provider that has handed out nothing yet: its region starts at \<open>0x10000\<close> and may
  grow to \<open>0x20000\<close>; every byte of memory is zero. \<open>fresh ap\<close> is the heap
  after \<open>mm_init(ap)\<close> on it, and \<open>arena\<close> spells out the variables of such a heap
  around a given memory.
\<close>

definition pristine :: heap where
  "pristine = \<lparr>mem = (\<lambda>_. 0), prov_start = 0x10000, prov_brk = 0x10000,
     prov_limit = 0x20000, prov_pagesize = 4096, ds_heap_start = 0, ds_heap_brk = 0,
     heap_start = 0, heap_end = 0, PAGESIZE = 0, get_free_block = None,
     mm_initialized = False, nf_ptr = 0, nf = False\<rparr>"

definition fresh :: "AllocationPolicy \<Rightarrow> heap" where
  "fresh ap = (case mm_init pristine ap of Inr h \<Rightarrow> h | Inl e \<Rightarrow> pristine)"

definition arena :: "AllocationPolicy \<Rightarrow> bool \<Rightarrow> addr \<Rightarrow> memory \<Rightarrow> heap" where
  "arena ap nff nfp m = \<lparr>mem = m, prov_start = 0x10000, prov_brk = 0x11000,
     prov_limit = 0x20000, prov_pagesize = 4096, ds_heap_start = 0x10000,
     ds_heap_brk = 0x11000, heap_start = 0x10020, heap_end = 0x10FE0, PAGESIZE = 4096,
     get_free_block = Some ap, mm_initialized = True, nf_ptr = nfp, nf = nff\<rparr>"

text \<open>
  A memory that is zero except for the words stored at the listed addresses, and the
  bookkeeping to keep such a list sorted when one more word is stored.
\<close>

fun stores :: "(addr \<times> ulong) list \<Rightarrow> memory" where
  "stores [] = (\<lambda>_. 0)"
| "stores ((p, v) # xs) = PUT (stores xs) p v"

fun upd :: "addr \<Rightarrow> ulong \<Rightarrow> (addr \<times> ulong) list \<Rightarrow> (addr \<times> ulong) list" where
  "upd p v [] = [(p, v)]"
| "upd p v ((q, w) # xs) =
     (if p = q then (p, v) # xs
      else if q < p then (q, w) # upd p v xs
      else (p, v) # (q, w) # xs)"

fun apart :: "addr \<Rightarrow> (addr \<times> ulong) list \<Rightarrow> bool" where
  "apart p [] = True"
| "apart p ((q, w) # xs) = ((p = q \<or> (8 \<le> p - q \<and> 8 \<le> q - p)) \<and> apart p xs)"

fun lookup :: "(addr \<times> ulong) list \<Rightarrow> addr \<Rightarrow> ulong" where
  "lookup [] p = 0"
| "lookup ((q, w) # xs) p = (if p = q then w else lookup xs p)"

definition fresh_mem :: memory where
  "fresh_mem = stores [(0x10018, 1), (0x10020, 4032), (0x10FD8, 4032), (0x10FE0, 1)]"

text \<open>The heap and the address an operation returned; the pristine heap when it did not.\<close>

definition heap_of :: "(error + heap \<times> addr) option \<Rightarrow> heap" where
  "heap_of r = (case r of Some (Inr (h, a)) \<Rightarrow> h | _ \<Rightarrow> pristine)"

definition addr_of :: "(error + heap \<times> addr) option \<Rightarrow> addr option" where
  "addr_of r = (case r of Some (Inr (h, a)) \<Rightarrow> Some a | _ \<Rightarrow> None)"

definition freed :: "error + heap \<Rightarrow> heap" where
  "freed r = (case r of Inr h \<Rightarrow> h | Inl e \<Rightarrow> pristine)"

text \<open>
  Two heaps reached by calls of the public operations. \<open>after_two\<close>: after
  \<open>mm_init(ap)\<close> and two calls \<open>mm_malloc(16)\<close>. \<open>large_free\<close>: the best-fit heap
  after \<open>mm_init(ap_BestFit)\<close>, \<open>p = mm_malloc(2^32)\<close> and \<open>mm_free(p)\<close> on a provider
  with room for it: a single free block of \<open>2^32 + 4032\<close> bytes.
\<close>

definition after_two :: "AllocationPolicy \<Rightarrow> heap" where
  "after_two ap = heap_of (mm_malloc (heap_of (mm_malloc (fresh ap) 16)) 16)"

definition large_free :: heap where
  "large_free = \<lparr>mem = stores [(0x10018, 1), (0x10020, 0x100000FC0),
       (0x100010FD8, 0x100000FC0), (0x100010FE0, 1)],
     prov_start = 0x10000, prov_brk = 0x100011000, prov_limit = 0x200000000,
     prov_pagesize = 4096, ds_heap_start = 0x10000, ds_heap_brk = 0x100011000,
     heap_start = 0x10020, heap_end = 0x100010FE0, PAGESIZE = 4096,
     get_free_block = Some ap_BestFit, mm_initialized = True, nf_ptr = 0, nf = False\<rparr>"

subsection \<open>Block sequences and the heap invariant\<close>

text \<open>
  The heap between \<open>heap_start\<close> and \<open>heap_end\<close> read as a sequence of blocks, each
  given by its size and whether it is allocated. \<open>tag\<close> is the boundary tag of a block,
  \<open>layout m p bs\<close> says that memory \<open>m\<close> holds the blocks \<open>bs\<close> back to back from
  address \<open>p\<close>, header and footer of each equal to its tag; \<open>starts\<close> lists the header
  addresses and \<open>span\<close> is the number of bytes the blocks cover.
\<close>

type_synonym block = "ulong \<times> bool"

definition tag :: "block \<Rightarrow> ulong" where
  "tag b = PACK (fst b) (if snd b then ALLOC else FREE)"

definition block_ok :: "block \<Rightarrow> bool" where
  "block_ok b = (32 \<le> unat (fst b) \<and> 32 dvd unat (fst b))"

primrec layout :: "memory \<Rightarrow> addr \<Rightarrow> block list \<Rightarrow> bool" where
  "layout m p [] = True"
| "layout m p (b # bs) =
     (GET m p = tag b \<and> GET m (p + fst b - TYPE_SIZE) = tag b \<and> layout m (p + fst b) bs)"

primrec starts :: "addr \<Rightarrow> block list \<Rightarrow> addr list" where
  "starts p [] = []"
| "starts p (b # bs) = p # starts (p + fst b) bs"

definition span :: "block list \<Rightarrow> nat" where
  "span bs = sum_list (map (\<lambda>b. unat (fst b)) bs)"

text \<open>
  \<open>agree m m' lo hi\<close>: the two memories hold the same bytes at the addresses from
  \<open>lo\<close> up to, not including, \<open>hi\<close>. \<open>only_tags m m' lo hi\<close>: they differ at most in
  the first and the last word of that range. \<open>retag\<close> writes header and footer of one
  block.
\<close>

definition agree :: "memory \<Rightarrow> memory \<Rightarrow> nat \<Rightarrow> nat \<Rightarrow> bool" where
  "agree m m' lo hi = (\<forall>a. lo \<le> unat a \<and> unat a < hi \<longrightarrow> m' a = m a)"

definition retag :: "memory \<Rightarrow> addr \<Rightarrow> ulong \<Rightarrow> bool \<Rightarrow> memory" where
  "retag m hdr S a = PUT (PUT m hdr (tag (S, a))) (hdr + S - TYPE_SIZE) (tag (S, a))"

definition only_tags :: "memory \<Rightarrow> memory \<Rightarrow> nat \<Rightarrow> nat \<Rightarrow> bool" where
  "only_tags m m' lo hi =
     (agree m m' 0 lo \<and> agree m m' (lo + 8) (hi - 8) \<and> agree m m' hi (2 ^ 64))"

text \<open>
  What the three searches compute on a block sequence: \<open>find_fit\<close> the first free block
  of at least \<open>sz\<close> bytes, \<open>bf_pick\<close> the candidate the best-fit loop ends with, and
  \<open>fits p bs sz a\<close> that \<open>a\<close> is the header of some free block of at least \<open>sz\<close> bytes.
\<close>

primrec find_fit :: "ulong \<Rightarrow> addr \<Rightarrow> block list \<Rightarrow> addr option" where
  "find_fit sz p [] = None"
| "find_fit sz p (b # bs) =
     (if \<not> snd b \<and> sz \<le> fst b then Some p else find_fit sz (p + fst b) bs)"

definition fits :: "addr \<Rightarrow> block list \<Rightarrow> ulong \<Rightarrow> addr \<Rightarrow> bool" where
  "fits p bs sz a =
     (\<exists>xs s ys. bs = xs @ (s, False) # ys \<and> a = p + of_nat (span xs) \<and> sz \<le> s)"

primrec bf_pick :: "ulong \<Rightarrow> addr \<Rightarrow> ulong \<Rightarrow> addr \<Rightarrow> block list \<Rightarrow> addr" where
  "bf_pick sz bfp frag p [] = bfp"
| "bf_pick sz bfp frag p (b # bs) =
     (if \<not> snd b \<and> sz \<le> fst b \<and> fst b - sz < frag
      then bf_pick sz p (fst b - sz) (p + fst b) bs
      else bf_pick sz bfp frag (p + fst b) bs)"

text \<open>
  \<open>segment m hs he bs\<close>: the blocks \<open>bs\<close>, each a positive multiple of 32 bytes, fill
  the memory from \<open>hs\<close> to \<open>he\<close>, with an allocated sentinel word before \<open>hs\<close> and at
  \<open>he\<close>. \<open>merge xs s ys\<close> is the sequence after the free block of \<open>s\<close> bytes between
  \<open>xs\<close> and \<open>ys\<close> has been joined with its free neighbours.
\<close>

definition segment :: "memory \<Rightarrow> addr \<Rightarrow> addr \<Rightarrow> block list \<Rightarrow> bool" where
  "segment m hs he bs =
    (layout m hs bs \<and> list_all block_ok bs \<and> unat hs + span bs = unat he \<and> 16 \<le> unat hs
     \<and> GET_STATUS m (hs - 8) \<noteq> 0 \<and> GET_STATUS m he \<noteq> 0 \<and> unat he + 8 \<le> 2 ^ 64)"

definition prev_free :: "block list \<Rightarrow> bool" where
  "prev_free xs = (xs \<noteq> [] \<and> \<not> snd (last xs))"

definition next_free :: "block list \<Rightarrow> bool" where
  "next_free ys = (ys \<noteq> [] \<and> \<not> snd (hd ys))"

definition merge_pre :: "block list \<Rightarrow> block list" where
  "merge_pre xs = (if prev_free xs then butlast xs else xs)"

definition merge_post :: "block list \<Rightarrow> block list" where
  "merge_post ys = (if next_free ys then tl ys else ys)"

definition merge_size :: "block list \<Rightarrow> ulong \<Rightarrow> block list \<Rightarrow> ulong" where
  "merge_size xs s ys =
     s + (if prev_free xs then fst (last xs) else 0) + (if next_free ys then fst (hd ys) else 0)"

definition merge :: "block list \<Rightarrow> ulong \<Rightarrow> block list \<Rightarrow> block list" where
  "merge xs s ys = merge_pre xs @ (merge_size xs s ys, False) # merge_post ys"

text \<open>
  The invariant of an initialised heap whose blocks are \<open>bs\<close>: a policy is set, the
  next-fit cursor is the header of a block, the blocks fill the heap, and the end
  sentinel lies 32 bytes below the break of the provider, as \<open>mm_init\<close> and
  \<open>extend_heap\<close> place it.
\<close>

definition heap_wf :: "heap \<Rightarrow> block list \<Rightarrow> bool" where
  "heap_wf h bs =
    (mm_initialized h \<and> get_free_block h \<noteq> None
     \<and> (get_free_block h = Some ap_NextFit \<longrightarrow> nf_ptr h \<in> set (starts (heap_start h) bs))
     \<and> segment (mem h) (heap_start h) (heap_end h) bs
     \<and> unat (heap_end h) + 32 = unat (prov_brk h)
     \<and> unat (prov_brk h) \<le> unat (prov_limit h))"

text \<open>
  \<open>keeps p m bs m' bs'\<close>: every allocated block of \<open>bs\<close> is a block of \<open>bs'\<close> at the
  same offset, with the same bytes. \<open>loop_post\<close> and \<open>malloc_post\<close> say what the
  search-and-extend loop and \<open>mm_malloc\<close> return.
\<close>

definition keeps :: "nat \<Rightarrow> memory \<Rightarrow> block list \<Rightarrow> memory \<Rightarrow> block list \<Rightarrow> bool" where
  "keeps p m bs m' bs' =
    (\<forall>xs s ys. bs = xs @ (s, True) # ys \<longrightarrow>
       (\<exists>xs' ys'. bs' = xs' @ (s, True) # ys' \<and> span xs' = span xs)
       \<and> agree m m' (p + span xs) (p + span xs + unat s))"

definition loop_post :: "heap \<Rightarrow> block list \<Rightarrow> ulong \<Rightarrow> error + heap \<times> addr \<Rightarrow> bool" where
  "loop_post h bs sz r =
    (r = Inl (Panic ''Error when extend heap'')
     \<or> (\<exists>h' bs' a'. r = Inr (h', a') \<and> heap_wf h' bs' \<and> fits (heap_start h') bs' sz a'
           \<and> heap_start h' = heap_start h
           \<and> keeps (unat (heap_start h)) (mem h) bs (mem h') bs'))"

definition malloc_post :: "heap \<Rightarrow> block list \<Rightarrow> ulong \<Rightarrow> error + heap \<times> addr \<Rightarrow> bool" where
  "malloc_post h bs A r =
    (r = Inl (Panic ''Error when extend heap'')
     \<or> (\<exists>h' xs ys. r = Inr (h', heap_start h + of_nat (span xs) + 8)
           \<and> heap_wf h' (xs @ (A, True) # ys) \<and> heap_start h' = heap_start h
           \<and> keeps (unat (heap_start h)) (mem h) bs (mem h') (xs @ (A, True) # ys)))"

section \<open>Properties\<close>

subsection \<open>Loads and stores\<close>

lemma GET_PUT_same: "GET (PUT m p v) p = v"
  apply (simp add: GET_def PUT_def byte_at_def)
  apply (rule bit_eqI)
  apply (simp add: bit_simps less_diff_conv2 cong: conj_cong)
  apply (case_tac "bit v n"; simp)
  apply linarith
  done

lemma apart_excl:
  fixes a p q :: addr
  assumes "8 \<le> p - q" "8 \<le> q - p" "a - p < 8" "a - q < 8"
  shows False
proof (cases "a - p \<le> a - q")
  case True
  then have "(a - q) - (a - p) \<le> a - q" by (rule word_sub_le)
  moreover have "(a - q) - (a - p) = p - q" by simp
  ultimately show False using assms by simp
next
  case False
  then have "a - q \<le> a - p" by simp
  then have "(a - p) - (a - q) \<le> a - p" by (rule word_sub_le)
  moreover have "(a - p) - (a - q) = q - p" by simp
  ultimately show False using assms by simp
qed

lemma PUT_other: "8 \<le> a - p \<Longrightarrow> PUT m p v a = m a"
  by (auto simp: PUT_def)

lemma GET_PUT_other:
  assumes "8 \<le> q - p" "8 \<le> p - q"
  shows "GET (PUT m p v) q = GET m q"
proof -
  have "PUT m p v (q + i) = m (q + i)" if "i < 8" for i
  proof -
    have "q + i - q < 8" using that by simp
    with assms have "\<not> q + i - p < 8" by (blast dest: apart_excl)
    then show ?thesis by (simp add: PUT_def)
  qed
  from this [of 0] this show ?thesis by (simp add: GET_def byte_at_def)
qed

lemma GET_zero: "GET (\<lambda>_. 0) p = 0"
  by (simp add: GET_def byte_at_def)

lemmas macro_defs = TYPE_SIZE_def ALLOC_def FREE_def STATUS_MASK_def SIZE_MASK_def
  CHUNKSIZE_def BS_def UINT_MAX_def NULL_def PREV_PTR_def NEXT_PTR_def HDRP_def PACK_def
  SIZE_def STATUS_def GET_SIZE_def GET_STATUS_def FTRP_def PREV_BLK_PTR_def NEXT_BLK_PTR_def

subsection \<open>Evaluation on the concrete region\<close>

lemma arena_sel:
  "mem (arena ap nff nfp m) = m" "heap_start (arena ap nff nfp m) = 0x10020"
  "heap_end (arena ap nff nfp m) = 0x10FE0" "mm_initialized (arena ap nff nfp m)"
  "get_free_block (arena ap nff nfp m) = Some ap" "nf_ptr (arena ap nff nfp m) = nfp"
  "nf (arena ap nff nfp m) = nff" "prov_brk (arena ap nff nfp m) = 0x11000"
  "prov_limit (arena ap nff nfp m) = 0x20000"
  "(arena ap nff nfp m)\<lparr>mem := m'\<rparr> = arena ap nff nfp m'"
  "(arena ap nff nfp m)\<lparr>nf_ptr := nfp'\<rparr> = arena ap nff nfp' m"
  by (simp_all add: arena_def)

lemma PUT_PUT_same: "PUT (PUT m p v) p w = PUT m p w"
  by (rule ext) (simp add: PUT_def)

lemma PUT_commute:
  "8 \<le> p - q \<Longrightarrow> 8 \<le> q - p \<Longrightarrow> PUT (PUT m p v) q w = PUT (PUT m q w) p v"
  by (rule ext) (auto simp: PUT_def dest: apart_excl)

lemma PUT_stores: "apart p xs \<Longrightarrow> PUT (stores xs) p v = stores (upd p v xs)"
proof (induction xs)
  case Nil
  then show ?case by simp
next
  case (Cons x xs)
  obtain q w where x: "x = (q, w)" by (cases x)
  show ?case
  proof (cases "p = q")
    case True
    then show ?thesis by (simp add: x PUT_PUT_same)
  next
    case False
    with Cons.prems x have d: "8 \<le> p - q" "8 \<le> q - p" and a: "apart p xs" by auto
    show ?thesis
    proof (cases "q < p")
      case True
      have "PUT (PUT (stores xs) q w) p v = PUT (PUT (stores xs) p v) q w"
        by (rule PUT_commute) (rule d)+
      with True False Cons.IH [OF a] show ?thesis by (simp add: x)
    next
      case False
      with \<open>p \<noteq> q\<close> show ?thesis by (simp add: x)
    qed
  qed
qed

lemma GET_stores: "apart p xs \<Longrightarrow> GET (stores xs) p = lookup xs p"
  by (induction xs) (auto simp: GET_zero GET_PUT_same GET_PUT_other)

lemma stores_Nil: "(\<lambda>_. 0) = stores []"
  by simp

declare stores.simps [simp del]

lemma fresh_eq:
  "fresh ap = arena ap (ap = ap_NextFit) (if ap = ap_NextFit then 0x10020 else 0) fresh_mem"
  unfolding fresh_def mm_init_def pristine_def stores_Nil fresh_mem_def
  by (simp add: ds_heap_stat_def ds_getpagesize_def ds_sbrk_def macro_defs Let_def arena_def
      PUT_stores)

lemma alloc_size_of_0: "alloc_size_of 0 = 32"
  by (simp add: alloc_size_of_def to_double_def macro_defs)

lemma alloc_size_of_16: "alloc_size_of 16 = 32"
  by (simp add: alloc_size_of_def to_double_def macro_defs)

lemma alloc_size_of_48: "alloc_size_of 48 = 64"
  by (simp add: alloc_size_of_def to_double_def macro_defs)

lemma alloc_size_of_minus_15: "alloc_size_of (- 15) = 32"
  by (simp add: alloc_size_of_def to_double_def macro_defs)

text \<open>Unfolding \<open>let\<close> once its bound term is a value keeps evaluation linear.\<close>

lemma Let_vals:
  "Let (stores xs) f = f (stores xs)"
  "Let (arena a b c d) g = g (arena a b c d)"
  "Let (numeral n :: 64 word) k = k (numeral n)"
  "Let (- numeral n :: 64 word) k = k (- numeral n)"
  "Let (0 :: 64 word) k = k 0"
  "Let (1 :: 64 word) k = k 1"
  by (simp_all add: Let_def)

lemmas eval_simps = fresh_eq fresh_mem_def mm_malloc_def call_get_free_block_def
  ff_get_free_block_def nf_get_free_block_def bf_get_free_block_def ff_loop.simps
  nf_loop.simps bf_loop.simps mm_malloc_loop.simps macro_defs GET_stores PUT_stores
  place_def mm_realloc_def realloc_body_def mm_free_def coalesce_def Let_vals heap_of_def
  addr_of_def freed_def arena_sel alloc_size_of_0 alloc_size_of_16 alloc_size_of_48
  alloc_size_of_minus_15

text \<open>First fit: \<open>a = mm_malloc(16)\<close> on the fresh heap.\<close>

lemma ff_malloc_a:
  "mm_malloc (fresh ap_FirstFit) 16 =
     Some (Inr (arena ap_FirstFit False 0
       (stores [(65560, 1), (65568, 33), (65592, 33), (65600, 4000), (69592, 4000),
                (69600, 1)]), 65576))"
  by (simp add: eval_simps)

text \<open>Then \<open>b = mm_malloc(48)\<close> and \<open>c = mm_malloc(16)\<close>.\<close>

lemma ff_malloc_b:
  "mm_malloc (arena ap_FirstFit False 0
       (stores [(65560, 1), (65568, 33), (65592, 33), (65600, 4000), (69592, 4000),
                (69600, 1)])) 48 =
     Some (Inr (arena ap_FirstFit False 0
       (stores [(65560, 1), (65568, 33), (65592, 33), (65600, 65), (65656, 65),
                (65664, 3936), (69592, 3936), (69600, 1)]), 65608))"
  by (simp add: eval_simps)

lemma ff_malloc_c:
  "mm_malloc (arena ap_FirstFit False 0
       (stores [(65560, 1), (65568, 33), (65592, 33), (65600, 65), (65656, 65),
                (65664, 3936), (69592, 3936), (69600, 1)])) 16 =
     Some (Inr (arena ap_FirstFit False 0
       (stores [(65560, 1), (65568, 33), (65592, 33), (65600, 65), (65656, 65),
                (65664, 33), (65688, 33), (65696, 3904), (69592, 3904), (69600, 1)]),
       65672))"
  by (simp add: eval_simps)

text \<open>Then \<open>mm_free(a)\<close>, \<open>mm_realloc(b, 0)\<close> and \<open>mm_free(c)\<close>.\<close>

lemma ff_free_a:
  "mm_free (arena ap_FirstFit False 0
       (stores [(65560, 1), (65568, 33), (65592, 33), (65600, 65), (65656, 65),
                (65664, 33), (65688, 33), (65696, 3904), (69592, 3904), (69600, 1)]))
       65576 =
     Inr (arena ap_FirstFit False 0
       (stores [(65560, 1), (65568, 32), (65592, 32), (65600, 65), (65656, 65),
                (65664, 33), (65688, 33), (65696, 3904), (69592, 3904), (69600, 1)]))"
  by (simp add: eval_simps)

lemma ff_realloc_b_0:
  "mm_realloc (arena ap_FirstFit False 0
       (stores [(65560, 1), (65568, 32), (65592, 32), (65600, 65), (65656, 65),
                (65664, 33), (65688, 33), (65696, 3904), (69592, 3904), (69600, 1)]))
       65608 0 =
     Some (Inr (arena ap_FirstFit False 0
       (stores [(65560, 1), (65568, 96), (65592, 32), (65600, 33), (65624, 33),
                (65632, 32), (65656, 32), (65664, 33), (65688, 33), (65696, 3904),
                (69592, 3904), (69600, 1)]), 65608))"
  by (simp add: eval_simps)

lemma ff_free_c:
  "mm_free (arena ap_FirstFit False 0
       (stores [(65560, 1), (65568, 96), (65592, 32), (65600, 33), (65624, 33),
                (65632, 32), (65656, 32), (65664, 33), (65688, 33), (65696, 3904),
                (69592, 3904), (69600, 1)])) 65672 =
     Inr (arena ap_FirstFit False 0
       (stores [(65560, 1), (65568, 96), (65592, 32), (65600, 33), (65624, 33),
                (65632, 3968), (65656, 32), (65664, 32), (65688, 32), (65696, 3904),
                (69592, 3968), (69600, 1)]))"
  by (simp add: eval_simps)

text \<open>Next fit: two calls \<open>mm_malloc(16)\<close> on the fresh heap.\<close>

lemma nf_malloc_a:
  "mm_malloc (fresh ap_NextFit) 16 =
     Some (Inr (arena ap_NextFit True 65568
       (stores [(65560, 1), (65568, 33), (65592, 33), (65600, 4000), (69592, 4000),
                (69600, 1)]), 65576))"
  by (simp add: eval_simps)

lemma nf_malloc_b:
  "mm_malloc (arena ap_NextFit True 65568
       (stores [(65560, 1), (65568, 33), (65592, 33), (65600, 4000), (69592, 4000),
                (69600, 1)])) 16 =
     Some (Inr (arena ap_NextFit True 65600
       (stores [(65560, 1), (65568, 33), (65592, 33), (65600, 33), (65624, 33),
                (65632, 3968), (69592, 3968), (69600, 1)]), 65608))"
  by (simp add: eval_simps)

lemma after_two_nf:
  "after_two ap_NextFit = arena ap_NextFit True 65600
       (stores [(65560, 1), (65568, 33), (65592, 33), (65600, 33), (65624, 33),
                (65632, 3968), (69592, 3968), (69600, 1)])"
  by (simp add: after_two_def nf_malloc_a nf_malloc_b heap_of_def)

subsection \<open>Tags, word arithmetic and memory frames\<close>

lemma seven_mask: "(7 :: ulong) = mask 3"
  by (simp add: mask_eq_exp_minus_1)

lemma low_bits:
  fixes s :: ulong
  assumes "32 dvd unat s" "n < 5"
  shows "\<not> bit s n"
proof -
  from assms(1) have "s AND mask 5 = 0"
    using and_mask_dvd_nat [of 5 s] by simp
  then have "\<not> bit (s AND mask 5) n" by simp
  with assms(2) show ?thesis by (simp add: bit_simps)
qed

lemma SIZE_PACK:
  fixes s :: ulong
  assumes "32 dvd unat s"
  shows "SIZE (PACK s (if a then ALLOC else FREE)) = s"
  unfolding SIZE_def PACK_def SIZE_MASK_def STATUS_MASK_def ALLOC_def FREE_def seven_mask
  apply (rule bit_eqI)
  using low_bits [OF assms]
  apply (auto simp: bit_simps)
  done

lemma STATUS_PACK:
  fixes s :: ulong
  assumes "32 dvd unat s"
  shows "STATUS (PACK s (if a then ALLOC else FREE)) = (if a then ALLOC else FREE)"
  unfolding STATUS_def PACK_def SIZE_MASK_def STATUS_MASK_def ALLOC_def FREE_def seven_mask
  apply (rule bit_eqI)
  using low_bits [OF assms]
  apply (auto simp: bit_simps)
  done

lemma far_apart:
  fixes p q :: addr
  assumes "unat p + 8 \<le> unat q" "unat q + 8 \<le> 2 ^ 64"
  shows "8 \<le> q - p" "8 \<le> p - q"
proof -
  have "unat (q - p) = unat q - unat p" using assms by (simp add: unat_sub_if_size)
  then show "8 \<le> q - p" using assms by (simp add: word_le_nat_alt)
  have "unat (p - q) = unat p + 2 ^ 64 - unat q"
    using assms by (simp add: unat_sub_if_size word_size)
  then show "8 \<le> p - q" using assms by (simp add: word_le_nat_alt)
qed

lemma span_simps [simp]:
  "span [] = 0" "span (b # bs) = unat (fst b) + span bs" "span (xs @ ys) = span xs + span ys"
  by (simp_all add: span_def)

lemma unat_plus:
  fixes p :: addr
  assumes "unat p + n < 2 ^ 64"
  shows "unat (p + of_nat n) = unat p + n"
proof -
  have n: "unat (of_nat n :: addr) = n" using assms by (simp add: unat_of_nat)
  have "unat p + unat (of_nat n :: addr) < 2 ^ LENGTH(64)" using assms n by simp
  then have "unat (p + of_nat n) = unat p + unat (of_nat n :: addr)"
    by (simp only: unat_add_lem)
  with n show ?thesis by simp
qed

lemma unat_plus_word:
  fixes p s :: addr
  assumes "unat p + unat s < 2 ^ 64"
  shows "unat (p + s) = unat p + unat s"
  using assms unat_add_lem [of p s] by simp

lemma agree_refl: "agree m m lo hi"
  by (simp add: agree_def)

lemma agree_trans: "agree m m' lo hi \<Longrightarrow> agree m' m'' lo hi \<Longrightarrow> agree m m'' lo hi"
  by (simp add: agree_def)

lemma agree_mono: "agree m m' lo hi \<Longrightarrow> lo \<le> lo' \<Longrightarrow> hi' \<le> hi \<Longrightarrow> agree m m' lo' hi'"
  by (simp add: agree_def)

lemma PUT_byte_other:
  assumes "unat a < unat q \<or> unat q + 8 \<le> unat a" "unat q + 8 \<le> 2 ^ 64"
  shows "PUT m q v a = m a"
proof -
  have "8 \<le> unat (a - q)"
    using assms unsigned_less [of a, where ?'a = nat]
    by (auto simp: unat_sub_if_size word_size)
  then have "\<not> a - q < 8" by (simp add: word_less_nat_alt)
  then show ?thesis by (simp add: PUT_def)
qed

lemma agree_PUT:
  assumes "unat q + 8 \<le> lo \<or> hi \<le> unat q" "unat q + 8 \<le> 2 ^ 64"
  shows "agree m (PUT m q v) lo hi"
  unfolding agree_def using assms by (auto intro!: PUT_byte_other)

lemma GET_agree:
  assumes "agree m m' lo hi" "lo \<le> unat p" "unat p + 8 \<le> hi" "hi \<le> 2 ^ 64"
  shows "GET m' p = GET m p"
proof -
  have "m' (p + of_nat i) = m (p + of_nat i)" if "i < 8" for i
  proof -
    have "unat (p + of_nat i) = unat p + i" using that assms by (intro unat_plus) simp
    with assms that show ?thesis by (simp add: agree_def)
  qed
  from this [of 0] this [of 1] this [of 2] this [of 3] this [of 4] this [of 5] this [of 6]
    this [of 7]
  show ?thesis by (simp add: GET_def byte_at_def)
qed

lemma layout_agree:
  assumes "agree m m' lo hi" "hi < 2 ^ 64"
  shows "layout m p bs \<Longrightarrow> list_all block_ok bs \<Longrightarrow> lo \<le> unat p \<Longrightarrow> unat p + span bs \<le> hi
    \<Longrightarrow> layout m' p bs"
proof (induction bs arbitrary: p)
  case Nil
  then show ?case by simp
next
  case (Cons b bs)
  from Cons.prems have ok: "32 \<le> unat (fst b)" and fit: "unat p + unat (fst b) + span bs \<le> hi"
    by (simp_all add: block_ok_def)
  have nxt: "unat (p + fst b) = unat p + unat (fst b)"
    using fit assms(2) by (intro unat_plus_word) simp
  have ftr: "unat (p + fst b - TYPE_SIZE) = unat p + unat (fst b) - 8"
    using nxt ok by (simp add: unat_sub_if_size TYPE_SIZE_def)
  have "GET m' p = GET m p"
    using assms Cons.prems(3) fit ok by (intro GET_agree [OF assms(1)]) simp_all
  moreover have "GET m' (p + fst b - TYPE_SIZE) = GET m (p + fst b - TYPE_SIZE)"
    using assms Cons.prems(3) fit ok ftr by (intro GET_agree [OF assms(1)]) simp_all
  moreover have "layout m' (p + fst b) bs"
    using Cons.prems fit nxt by (intro Cons.IH) simp_all
  ultimately show ?case using Cons.prems(1) by simp
qed

lemma layout_append:
  "layout m p (xs @ ys) = (layout m p xs \<and> layout m (p + of_nat (span xs)) ys)"
  by (induction xs arbitrary: p) (simp_all add: add.assoc)

lemma starts_append:
  "starts p (xs @ ys) = starts p xs @ starts (p + of_nat (span xs)) ys"
  by (induction xs arbitrary: p) (simp_all add: add.assoc)

lemma GET_SIZE_tag: "block_ok b \<Longrightarrow> GET m p = tag b \<Longrightarrow> GET_SIZE m p = fst b"
  by (simp add: GET_SIZE_def tag_def SIZE_PACK block_ok_def)

lemma GET_STATUS_tag:
  "block_ok b \<Longrightarrow> GET m p = tag b \<Longrightarrow> GET_STATUS m p = (if snd b then ALLOC else FREE)"
  by (simp add: GET_STATUS_def tag_def STATUS_PACK block_ok_def)

subsection \<open>The three searches on a block sequence\<close>

text \<open>
  On a laid-out block sequence each search loop terminates, and what it returns is
  \<open>NULL\<close> or the header of a free block that is large enough.
\<close>

lemma find_fit_fits: "find_fit sz p bs = Some a \<Longrightarrow> fits p bs sz a"
proof (induction bs arbitrary: p)
  case Nil
  then show ?case by simp
next
  case (Cons b bs)
  show ?case
  proof (cases "\<not> snd b \<and> sz \<le> fst b")
    case True
    with Cons.prems have "a = p" by simp
    moreover from True have "b = (fst b, False)" by (cases b) simp
    ultimately have "b # bs = [] @ (fst b, False) # bs \<and> a = p + of_nat (span []) \<and> sz \<le> fst b"
      using True by simp
    then show ?thesis unfolding fits_def by blast
  next
    case False
    with Cons.prems have "find_fit sz (p + fst b) bs = Some a" by auto
    then have "fits (p + fst b) bs sz a" by (rule Cons.IH)
    then obtain xs s ys where "bs = xs @ (s, False) # ys" "a = p + fst b + of_nat (span xs)"
      "sz \<le> s" unfolding fits_def by blast
    then have "b # bs = (b # xs) @ (s, False) # ys \<and> a = p + of_nat (span (b # xs)) \<and> sz \<le> s"
      by (simp add: add.assoc)
    then show ?thesis unfolding fits_def by blast
  qed
qed

lemma word_eq_unat: "unat (p :: addr) = unat q \<Longrightarrow> p = q"
  by (simp add: word_unat_eq_iff)

lemma ff_loop_layout:
  "layout m p bs \<Longrightarrow> list_all block_ok bs \<Longrightarrow> unat p + span bs = unat he \<Longrightarrow>
    ff_loop m he sz p = Some (case find_fit sz p bs of None \<Rightarrow> NULL | Some a \<Rightarrow> a)"
proof (induction bs arbitrary: p)
  case Nil
  then have "p = he" by (simp add: word_eq_unat)
  then show ?case by (subst ff_loop.simps) simp
next
  case (Cons b bs)
  from Cons.prems have ok: "block_ok b" and hd: "GET m p = tag b" by simp_all
  from ok have pos: "32 \<le> unat (fst b)" by (simp add: block_ok_def)
  from Cons.prems pos have lt: "p < he" by (simp add: word_less_nat_alt)
  have nxt: "unat (p + fst b) = unat p + unat (fst b)"
    using Cons.prems(3) unsigned_less [of he, where ?'a = nat]
    by (intro unat_plus_word) simp
  have sz: "GET_SIZE m p = fst b" using ok hd by (rule GET_SIZE_tag)
  have st: "(GET_STATUS m p = FREE) = (\<not> snd b)"
    using GET_STATUS_tag [OF ok hd] by (simp add: ALLOC_def FREE_def)
  show ?case
  proof (cases "\<not> snd b \<and> sz \<le> fst b")
    case True
    with lt sz st show ?thesis by (subst ff_loop.simps) (simp add: Let_def)
  next
    case False
    have "ff_loop m he sz (p + fst b) =
        Some (case find_fit sz (p + fst b) bs of None \<Rightarrow> NULL | Some a \<Rightarrow> a)"
      using Cons.prems nxt by (intro Cons.IH) simp_all
    with False lt sz st show ?thesis by (subst ff_loop.simps) (auto simp: Let_def)
  qed
qed

lemma fits_Cons: "fits (p + fst b) bs sz a \<Longrightarrow> fits p (b # bs) sz a"
proof -
  assume "fits (p + fst b) bs sz a"
  then obtain xs s ys where "bs = xs @ (s, False) # ys" "a = p + fst b + of_nat (span xs)"
    "sz \<le> s" unfolding fits_def by blast
  then have "b # bs = (b # xs) @ (s, False) # ys \<and> a = p + of_nat (span (b # xs)) \<and> sz \<le> s"
    by (simp add: add.assoc)
  then show ?thesis unfolding fits_def by blast
qed

lemma fits_here: "\<not> snd b \<Longrightarrow> sz \<le> fst b \<Longrightarrow> fits p (b # bs) sz p"
proof -
  assume a: "\<not> snd b" "sz \<le> fst b"
  then have "b = (fst b, False)" by (cases b) simp
  with a have "b # bs = [] @ (fst b, False) # bs \<and> p = p + of_nat (span []) \<and> sz \<le> fst b"
    by simp
  then show ?thesis unfolding fits_def by blast
qed

lemma fits_append_left: "fits (p + of_nat (span pre)) post sz a \<Longrightarrow> fits p (pre @ post) sz a"
  by (induction pre arbitrary: p) (simp_all add: fits_Cons add.assoc)

lemma fits_append_right: "fits p pre sz a \<Longrightarrow> fits p (pre @ post) sz a"
  unfolding fits_def by force

lemma bf_loop_layout:
  "layout m p bs \<Longrightarrow> list_all block_ok bs \<Longrightarrow> unat p + span bs = unat he \<Longrightarrow>
    bf_loop m he sz bfp frag p = Some (bf_pick sz bfp frag p bs)"
proof (induction bs arbitrary: p bfp frag)
  case Nil
  then have "p = he" by (simp add: word_eq_unat)
  then show ?case by (subst bf_loop.simps) simp
next
  case (Cons b bs)
  from Cons.prems have ok: "block_ok b" and hd: "GET m p = tag b" by simp_all
  from ok have pos: "32 \<le> unat (fst b)" by (simp add: block_ok_def)
  from Cons.prems pos have lt: "p < he" by (simp add: word_less_nat_alt)
  have nxt: "unat (p + fst b) = unat p + unat (fst b)"
    using Cons.prems(3) unsigned_less [of he, where ?'a = nat]
    by (intro unat_plus_word) simp
  have sz: "GET_SIZE m p = fst b" using ok hd by (rule GET_SIZE_tag)
  have st: "(GET_STATUS m p = FREE) = (\<not> snd b)"
    using GET_STATUS_tag [OF ok hd] by (simp add: ALLOC_def FREE_def)
  have ih: "bf_loop m he sz bfp' frag' (p + fst b) = Some (bf_pick sz bfp' frag' (p + fst b) bs)"
    for bfp' frag'
    using Cons.prems nxt by (intro Cons.IH) simp_all
  show ?case
    using lt sz st ih by (subst bf_loop.simps) (simp add: Let_def)
qed

lemma bf_pick_fits: "bf_pick sz bfp frag p bs = bfp \<or> fits p bs sz (bf_pick sz bfp frag p bs)"
proof (induction bs arbitrary: p bfp frag)
  case Nil
  then show ?case by simp
next
  case (Cons b bs)
  show ?case
  proof (cases "\<not> snd b \<and> sz \<le> fst b \<and> fst b - sz < frag")
    case True
    from Cons.IH [of p "fst b - sz" "p + fst b"] True show ?thesis
      by (auto intro: fits_here fits_Cons)
  next
    case False
    from Cons.IH [of bfp frag "p + fst b"] False show ?thesis
      by (auto intro: fits_Cons)
  qed
qed

lemma nf_loop_suffix:
  "layout m tp zs \<Longrightarrow> list_all block_ok zs \<Longrightarrow> unat tp + span zs = unat he \<Longrightarrow>
   unat nfp \<le> unat tp \<Longrightarrow>
    nf_loop m hs he nfp sz tp =
      (case find_fit sz tp zs of Some a \<Rightarrow> Some (a, a)
       | None \<Rightarrow> if hs \<noteq> nfp then nf_loop m hs he nfp sz hs else Some (NULL, nfp))"
proof (induction zs arbitrary: tp)
  case Nil
  then have "tp = he" by (simp add: word_eq_unat)
  then show ?case by (subst nf_loop.simps) simp
next
  case (Cons b zs)
  from Cons.prems have ok: "block_ok b" and hd: "GET m tp = tag b" by simp_all
  from ok have pos: "32 \<le> unat (fst b)" by (simp add: block_ok_def)
  from Cons.prems pos have ne: "tp \<noteq> he" by auto
  have nxt: "unat (tp + fst b) = unat tp + unat (fst b)"
    using Cons.prems(3) unsigned_less [of he, where ?'a = nat]
    by (intro unat_plus_word) simp
  have sz: "GET_SIZE m tp = fst b" using ok hd by (rule GET_SIZE_tag)
  have st: "(GET_STATUS m tp = FREE) = (\<not> snd b)"
    using GET_STATUS_tag [OF ok hd] by (simp add: ALLOC_def FREE_def)
  have far: "tp + fst b \<noteq> nfp" using nxt pos Cons.prems(4) by auto
  have ih: "nf_loop m hs he nfp sz (tp + fst b) =
      (case find_fit sz (tp + fst b) zs of Some a \<Rightarrow> Some (a, a)
       | None \<Rightarrow> if hs \<noteq> nfp then nf_loop m hs he nfp sz hs else Some (NULL, nfp))"
    using Cons.prems nxt by (intro Cons.IH) simp_all
  show ?case
    using ne sz st far ih by (subst nf_loop.simps) (simp add: Let_def)
qed

lemma nf_loop_prefix:
  "layout m tp (b # ys) \<Longrightarrow> list_all block_ok (b # ys) \<Longrightarrow>
   unat tp + span (b # ys) = unat nfp \<Longrightarrow> unat nfp \<le> unat he \<Longrightarrow>
    nf_loop m hs he nfp sz tp =
      Some (case find_fit sz tp (b # ys) of Some a \<Rightarrow> (a, a) | None \<Rightarrow> (NULL, nfp))"
proof (induction ys arbitrary: tp b)
  case Nil
  from Nil.prems have ok: "block_ok b" and hd: "GET m tp = tag b" by simp_all
  from ok have pos: "32 \<le> unat (fst b)" by (simp add: block_ok_def)
  from Nil.prems pos have ne: "tp \<noteq> he" by auto
  have nxt: "unat (tp + fst b) = unat tp + unat (fst b)"
    using Nil.prems(3) unsigned_less [of nfp, where ?'a = nat]
    by (intro unat_plus_word) simp
  have sz: "GET_SIZE m tp = fst b" using ok hd by (rule GET_SIZE_tag)
  have st: "(GET_STATUS m tp = FREE) = (\<not> snd b)"
    using GET_STATUS_tag [OF ok hd] by (simp add: ALLOC_def FREE_def)
  have "tp + fst b = nfp" using nxt Nil.prems(3) by (intro word_eq_unat) simp
  with ne sz st show ?case by (subst nf_loop.simps) (simp add: Let_def)
next
  case (Cons c ys)
  from Cons.prems have ok: "block_ok b" "block_ok c" and hd: "GET m tp = tag b" by simp_all
  from ok have pos: "32 \<le> unat (fst b)" "32 \<le> unat (fst c)" by (simp_all add: block_ok_def)
  from Cons.prems pos have ne: "tp \<noteq> he" by auto
  have nxt: "unat (tp + fst b) = unat tp + unat (fst b)"
    using Cons.prems(3) unsigned_less [of nfp, where ?'a = nat]
    by (intro unat_plus_word) simp
  have sz: "GET_SIZE m tp = fst b" using ok(1) hd by (rule GET_SIZE_tag)
  have st: "(GET_STATUS m tp = FREE) = (\<not> snd b)"
    using GET_STATUS_tag [OF ok(1) hd] by (simp add: ALLOC_def FREE_def)
  have far: "tp + fst b \<noteq> nfp" using nxt pos Cons.prems(3) by auto
  have ih: "nf_loop m hs he nfp sz (tp + fst b) =
      Some (case find_fit sz (tp + fst b) (c # ys) of Some a \<Rightarrow> (a, a) | None \<Rightarrow> (NULL, nfp))"
    using Cons.prems nxt by (intro Cons.IH) simp_all
  show ?case
    using ne sz st far ih by (subst nf_loop.simps) (simp add: Let_def)
qed

lemma fits_in_starts: "fits p bs sz a \<Longrightarrow> a \<in> set (starts p bs)"
  unfolding fits_def by (auto simp: starts_append)

lemma starts_decomp:
  "a \<in> set (starts p bs) \<Longrightarrow> \<exists>pre b post. bs = pre @ b # post \<and> a = p + of_nat (span pre)"
proof (induction bs arbitrary: p)
  case Nil
  then show ?case by simp
next
  case (Cons c bs)
  show ?case
  proof (cases "a = p")
    case True
    then have "c # bs = [] @ c # bs \<and> a = p + of_nat (span [])" by simp
    then show ?thesis by blast
  next
    case False
    with Cons.prems have "a \<in> set (starts (p + fst c) bs)" by simp
    from Cons.IH [OF this] obtain pre b post where
      "bs = pre @ b # post" "a = p + fst c + of_nat (span pre)" by blast
    then have "c # bs = (c # pre) @ b # post \<and> a = p + of_nat (span (c # pre))"
      by (simp add: add.assoc)
    then show ?thesis by blast
  qed
qed

lemma span_pos: "list_all block_ok bs \<Longrightarrow> bs \<noteq> [] \<Longrightarrow> 32 \<le> span bs"
  by (cases bs) (simp_all add: block_ok_def)

lemma heap_wf_nf_ptr_update:
  "heap_wf h bs \<Longrightarrow> c \<in> set (starts (heap_start h) bs) \<Longrightarrow> heap_wf (h\<lparr>nf_ptr := c\<rparr>) bs"
  by (simp add: heap_wf_def)

lemma nf_search:
  assumes wf: "heap_wf h bs" and c: "nf_ptr h \<in> set (starts (heap_start h) bs)"
  shows "\<exists>a c'. nf_loop (mem h) (heap_start h) (heap_end h) (nf_ptr h) sz (nf_ptr h) = Some (a, c')
      \<and> c' \<in> set (starts (heap_start h) bs) \<and> (a = NULL \<or> fits (heap_start h) bs sz a)"
proof -
  let ?m = "mem h" and ?hs = "heap_start h" and ?he = "heap_end h" and ?c = "nf_ptr h"
  from starts_decomp [OF c] obtain pre b post where
    bs: "bs = pre @ b # post" and ceq: "?c = ?hs + of_nat (span pre)" by blast
  from wf have sp: "unat ?hs + span bs = unat ?he" and ok: "list_all block_ok bs"
    and lay: "layout ?m ?hs bs" by (simp_all add: heap_wf_def segment_def)
  have lt: "unat ?hs + span pre < 2 ^ 64"
    using sp bs unsigned_less [of ?he, where ?'a = nat] by simp
  have cu: "unat ?c = unat ?hs + span pre" unfolding ceq using lt by (rule unat_plus)
  have lay2: "layout ?m ?c (b # post)" and lay1: "layout ?m ?hs pre"
    using lay bs ceq by (simp_all add: layout_append)
  have suffix: "nf_loop ?m ?hs ?he ?c sz ?c =
      (case find_fit sz ?c (b # post) of Some a \<Rightarrow> Some (a, a)
       | None \<Rightarrow> if ?hs \<noteq> ?c then nf_loop ?m ?hs ?he ?c sz ?hs else Some (NULL, ?c))"
    using lay2 ok bs sp cu by (intro nf_loop_suffix) simp_all
  show ?thesis
  proof (cases "find_fit sz ?c (b # post)")
    case (Some a)
    then have "fits ?c (b # post) sz a" by (rule find_fit_fits)
    then have f: "fits ?hs bs sz a" unfolding bs ceq by (rule fits_append_left)
    with Some suffix show ?thesis by (auto intro: fits_in_starts)
  next
    case None
    show ?thesis
    proof (cases pre)
      case Nil
      with ceq have "?hs = ?c" by simp
      with None suffix c show ?thesis by simp
    next
      case (Cons d pre')
      have "32 \<le> span pre" using ok bs Cons by (intro span_pos) simp_all
      with cu have ne: "?hs \<noteq> ?c" by auto
      have "nf_loop ?m ?hs ?he ?c sz ?hs =
          Some (case find_fit sz ?hs (d # pre') of Some a \<Rightarrow> (a, a) | None \<Rightarrow> (NULL, ?c))"
        using lay1 ok bs sp cu Cons by (intro nf_loop_prefix) simp_all
      with None suffix ne have res: "nf_loop ?m ?hs ?he ?c sz ?c =
          Some (case find_fit sz ?hs pre of Some a \<Rightarrow> (a, a) | None \<Rightarrow> (NULL, ?c))"
        using Cons by simp
      show ?thesis
      proof (cases "find_fit sz ?hs pre")
        case None
        with res c show ?thesis by simp
      next
        case (Some a)
        then have "fits ?hs pre sz a" by (rule find_fit_fits)
        then have "fits ?hs bs sz a" unfolding bs by (rule fits_append_right)
        with Some res show ?thesis by (auto intro: fits_in_starts)
      qed
    qed
  qed
qed

lemma search_wf:
  assumes wf: "heap_wf h bs"
  shows "\<exists>c a. call_get_free_block h sz = Some (Inr (h\<lparr>nf_ptr := c\<rparr>, a))
      \<and> heap_wf (h\<lparr>nf_ptr := c\<rparr>) bs \<and> (a = NULL \<or> fits (heap_start h) bs sz a)"
proof -
  from wf have init: "mm_initialized h" and sp: "unat (heap_start h) + span bs = unat (heap_end h)"
    and ok: "list_all block_ok bs" and lay: "layout (mem h) (heap_start h) bs"
    by (simp_all add: heap_wf_def segment_def)
  from wf obtain ap where ap: "get_free_block h = Some ap" by (auto simp: heap_wf_def)
  have same: "h\<lparr>nf_ptr := nf_ptr h\<rparr> = h" by simp
  show ?thesis
  proof (cases ap)
    case ap_FirstFit
    have "ff_loop (mem h) (heap_end h) sz (heap_start h) =
        Some (case find_fit sz (heap_start h) bs of None \<Rightarrow> NULL | Some a \<Rightarrow> a)"
      using lay ok sp by (rule ff_loop_layout)
    then have "call_get_free_block h sz =
        Some (Inr (h\<lparr>nf_ptr := nf_ptr h\<rparr>,
          case find_fit sz (heap_start h) bs of None \<Rightarrow> NULL | Some a \<Rightarrow> a))"
      using ap ap_FirstFit init by (simp add: call_get_free_block_def ff_get_free_block_def)
    moreover have "(case find_fit sz (heap_start h) bs of None \<Rightarrow> NULL | Some a \<Rightarrow> a) = NULL
        \<or> fits (heap_start h) bs sz
            (case find_fit sz (heap_start h) bs of None \<Rightarrow> NULL | Some a \<Rightarrow> a)"
      by (auto split: option.splits dest: find_fit_fits)
    ultimately show ?thesis using wf same by metis
  next
    case ap_BestFit
    have "bf_loop (mem h) (heap_end h) sz NULL UINT_MAX (heap_start h) =
        Some (bf_pick sz NULL UINT_MAX (heap_start h) bs)"
      using lay ok sp by (rule bf_loop_layout)
    then have "call_get_free_block h sz =
        Some (Inr (h\<lparr>nf_ptr := nf_ptr h\<rparr>, bf_pick sz NULL UINT_MAX (heap_start h) bs))"
      using ap ap_BestFit init by (simp add: call_get_free_block_def bf_get_free_block_def)
    moreover note bf_pick_fits [of sz NULL UINT_MAX "heap_start h" bs]
    ultimately show ?thesis using wf same by metis
  next
    case ap_NextFit
    with wf ap have c: "nf_ptr h \<in> set (starts (heap_start h) bs)" by (simp add: heap_wf_def)
    from nf_search [OF wf c, of sz] obtain a c' where
      r: "nf_loop (mem h) (heap_start h) (heap_end h) (nf_ptr h) sz (nf_ptr h) = Some (a, c')"
      and c': "c' \<in> set (starts (heap_start h) bs)"
      and a: "a = NULL \<or> fits (heap_start h) bs sz a" by blast
    from r have "call_get_free_block h sz = Some (Inr (h\<lparr>nf_ptr := c'\<rparr>, a))"
      using ap ap_NextFit init by (simp add: call_get_free_block_def nf_get_free_block_def)
    with heap_wf_nf_ptr_update [OF wf c'] a show ?thesis by blast
  qed
qed

subsection \<open>Coalescing on a block sequence\<close>

text \<open>
  \<open>coalesce\<close> at a free block writes at most the two tags of the joined block, and the
  heap afterwards is the \<open>merge\<close> of the sequence.
\<close>

lemma unat_footer:
  fixes hdr S :: addr
  assumes "16 \<le> unat S" "unat hdr + unat S < 2 ^ 64"
  shows "unat (hdr + S - TYPE_SIZE) = unat hdr + unat S - 8"
proof -
  have "unat (hdr + S) = unat hdr + unat S" using assms(2) by (rule unat_plus_word)
  with assms(1) show ?thesis by (simp add: unat_sub_if_size TYPE_SIZE_def)
qed

lemma retag_block:
  assumes "16 \<le> unat S" "unat hdr + unat S < 2 ^ 64"
  shows "GET (retag m hdr S a) hdr = tag (S, a)"
    and "GET (retag m hdr S a) (hdr + S - TYPE_SIZE) = tag (S, a)"
proof -
  have f: "unat (hdr + S - TYPE_SIZE) = unat hdr + unat S - 8" using assms by (rule unat_footer)
  have "8 \<le> (hdr + S - TYPE_SIZE) - hdr \<and> 8 \<le> hdr - (hdr + S - TYPE_SIZE)"
    using assms f far_apart [of hdr "hdr + S - TYPE_SIZE"] by simp
  then show "GET (retag m hdr S a) hdr = tag (S, a)"
    by (simp add: retag_def GET_PUT_other GET_PUT_same)
  show "GET (retag m hdr S a) (hdr + S - TYPE_SIZE) = tag (S, a)"
    by (simp add: retag_def GET_PUT_same)
qed

lemma retag_agree:
  assumes "16 \<le> unat S" "unat hdr + unat S < 2 ^ 64"
    and "hi \<le> unat hdr \<or> unat hdr + unat S \<le> lo \<or> (unat hdr + 8 \<le> lo \<and> hi \<le> unat hdr + unat S - 8)"
  shows "agree m (retag m hdr S a) lo hi"
proof -
  have f: "unat (hdr + S - TYPE_SIZE) = unat hdr + unat S - 8" using assms(1,2) by (rule unat_footer)
  have 1: "agree m (PUT m hdr (tag (S, a))) lo hi"
    using assms by (intro agree_PUT) auto
  have 2: "agree (PUT m hdr (tag (S, a))) (retag m hdr S a) lo hi"
    unfolding retag_def using assms f by (intro agree_PUT) auto
  from 1 2 show ?thesis by (rule agree_trans)
qed

lemma retag_only_tags:
  assumes "16 \<le> unat S" "unat hdr + unat S < 2 ^ 64"
  shows "only_tags m (retag m hdr S a) (unat hdr) (unat hdr + unat S)"
  unfolding only_tags_def using assms by (auto intro!: retag_agree)

lemma retag_layout:
  assumes pre: "layout m p pre" "list_all block_ok pre"
    and post: "layout m (p + of_nat (span pre) + S) post" "list_all block_ok post"
    and S: "block_ok (S, a)"
    and fit: "unat p + span pre + unat S + span post < 2 ^ 64"
  shows "layout (retag m (p + of_nat (span pre)) S a) p (pre @ (S, a) # post)"
proof -
  let ?hdr = "p + of_nat (span pre)" and ?m' = "retag m (p + of_nat (span pre)) S a"
  have hu: "unat ?hdr = unat p + span pre" using fit by (intro unat_plus) simp
  from S have S16: "16 \<le> unat S" by (simp add: block_ok_def)
  have hS: "unat ?hdr + unat S < 2 ^ 64" using hu fit by simp
  have qu: "unat (?hdr + S) = unat p + span pre + unat S"
    using hS hu unat_plus_word [of ?hdr S] by simp
  have a1: "agree m ?m' 0 (unat ?hdr)" using S16 hS by (intro retag_agree) simp_all
  have 1: "layout ?m' p pre"
    by (rule layout_agree [OF a1 _ pre]) (use hu hS in simp_all)
  have a2: "agree m ?m' (unat ?hdr + unat S) (unat p + span pre + unat S + span post)"
    using S16 hS by (intro retag_agree) simp_all
  have 2: "layout ?m' (?hdr + S) post"
    by (rule layout_agree [OF a2 _ post]) (use hu qu fit in simp_all)
  from 1 2 retag_block [OF S16 hS, of m a] show ?thesis
    by (simp add: layout_append)
qed

lemma tag_free: "tag (S, False) = PACK S FREE"
  by (simp add: tag_def)

lemma FTRP_PUT:
  assumes "32 dvd unat S"
  shows "FTRP (PUT m hdr (PACK S FREE)) (hdr + 8) = hdr + S - TYPE_SIZE"
proof -
  have "GET_SIZE (PUT m hdr (PACK S FREE)) hdr = S"
    using SIZE_PACK [OF assms, of False] by (simp add: GET_SIZE_def GET_PUT_same)
  then show ?thesis by (simp add: FTRP_def HDRP_def PREV_PTR_def TYPE_SIZE_def)
qed

lemma coalesce_none:
  assumes "GET_STATUS m (PREV_PTR (HDRP bp)) \<noteq> 0" "GET_STATUS m (NEXT_PTR (FTRP m bp)) \<noteq> 0"
  shows "coalesce m bp = (m, bp)"
  using assms by (simp add: coalesce_def Let_def)

lemma coalesce_next:
  assumes prev: "GET_STATUS m (hdr - 8) \<noteq> 0"
    and cur: "GET_SIZE m hdr = s"
    and nxt: "GET_STATUS m (hdr + s) = 0" "GET_SIZE m (hdr + s) = s1"
    and dvd: "32 dvd unat (s + s1)"
  shows "coalesce m (hdr + 8) = (retag m hdr (s + s1) False, hdr + 8)"
proof -
  have h: "HDRP (hdr + 8) = hdr" by (simp add: HDRP_def PREV_PTR_def TYPE_SIZE_def)
  have f: "NEXT_PTR (FTRP m (hdr + 8)) = hdr + s"
    using cur by (simp add: FTRP_def h NEXT_PTR_def TYPE_SIZE_def)
  have p: "PREV_PTR hdr = hdr - 8" by (simp add: PREV_PTR_def TYPE_SIZE_def)
  show ?thesis
    unfolding coalesce_def Let_def h f p
    using prev cur nxt FTRP_PUT [OF dvd, of m hdr]
    by (simp add: retag_def tag_free)
qed

lemma GET_PUT_far:
  assumes "unat p + 8 \<le> unat q \<or> unat q + 8 \<le> unat p"
    and "unat p + 8 \<le> 2 ^ 64" "unat q + 8 \<le> 2 ^ 64"
  shows "GET (PUT m p v) q = GET m q"
proof -
  from assms have "8 \<le> q - p \<and> 8 \<le> p - q"
    using far_apart [of p q] far_apart [of q p] by blast
  then show ?thesis by (simp add: GET_PUT_other)
qed

lemma coalesce_prev:
  assumes prev: "GET_STATUS m (hdr - 8) = 0" "GET_SIZE m (hdr - 8) = s0"
    and cur: "GET_SIZE m hdr = s"
    and nxt: "GET_STATUS m (hdr + s) \<noteq> 0"
    and b0: "32 \<le> unat s0" "unat s0 \<le> unat hdr" and bs: "32 \<le> unat s"
    and fit: "unat hdr + unat s < 2 ^ 64"
  shows "coalesce m (hdr + 8) = (retag m (hdr - s0) (s + s0) False, hdr - s0 + 8)"
proof -
  let ?p0 = "hdr - s0" and ?v = "PACK (s + s0) FREE"
  have h: "HDRP (hdr + 8) = hdr" by (simp add: HDRP_def PREV_PTR_def TYPE_SIZE_def)
  have f: "NEXT_PTR (FTRP m (hdr + 8)) = hdr + s"
    using cur by (simp add: FTRP_def h NEXT_PTR_def TYPE_SIZE_def)
  have p: "PREV_PTR hdr = hdr - 8" by (simp add: PREV_PTR_def TYPE_SIZE_def)
  have pb: "HDRP (PREV_BLK_PTR m (hdr + 8)) = ?p0"
    using prev by (simp add: PREV_BLK_PTR_def h p HDRP_def PREV_PTR_def TYPE_SIZE_def)
  have up0: "unat ?p0 = unat hdr - unat s0"
    using b0 by (simp add: unat_sub_if_size)
  have uf: "unat (hdr - 8) = unat hdr - 8"
    using b0 by (simp add: unat_sub_if_size)
  have uft: "unat (hdr + s - 8) = unat hdr + unat s - 8"
    using unat_footer [of s hdr] bs fit by (simp add: TYPE_SIZE_def)
  have g1: "GET (PUT m ?p0 ?v) hdr = GET m hdr"
    by (rule GET_PUT_far; use up0 b0 bs fit in \<open>simp?; arith?\<close>)
  have g2: "GET (PUT m ?p0 ?v) (hdr - 8) = GET m (hdr - 8)"
    by (rule GET_PUT_far; use up0 uf b0 bs fit in \<open>simp?; arith?\<close>)
  have ft: "FTRP (PUT m ?p0 ?v) (hdr + 8) = ?p0 + (s + s0) - TYPE_SIZE"
    using cur g1 by (simp add: FTRP_def h GET_SIZE_def)
  have e: "?p0 + (s + s0) - TYPE_SIZE = hdr + s - 8"
    by (simp add: TYPE_SIZE_def)
  have "GET (retag m ?p0 (s + s0) False) (hdr - 8) = GET (PUT m ?p0 ?v) (hdr - 8)"
    unfolding retag_def tag_free e
    by (rule GET_PUT_far; use uf uft b0 bs fit in \<open>simp?; arith?\<close>)
  with g2 have "GET (retag m ?p0 (s + s0) False) (hdr - 8) = GET m (hdr - 8)"
    by simp
  with prev have g3: "GET_SIZE (retag m ?p0 (s + s0) False) (hdr - 8) = s0"
    by (simp add: GET_SIZE_def)
  have pb2: "PREV_BLK_PTR (retag m ?p0 (s + s0) False) (hdr + 8) = ?p0 + 8"
    using g3 by (simp add: PREV_BLK_PTR_def h p)
  show ?thesis
    unfolding coalesce_def Let_def h f p pb
    using prev cur nxt ft pb2
    by (simp add: retag_def tag_free)
qed

lemma coalesce_both:
  assumes prev: "GET_STATUS m (hdr - 8) = 0" "GET_SIZE m (hdr - 8) = s0"
    and cur: "GET_SIZE m hdr = s"
    and nxt: "GET_STATUS m (hdr + s) = 0" "GET_SIZE m (hdr + s) = s1"
    and b0: "32 \<le> unat s0" "unat s0 \<le> unat hdr" and bs: "32 \<le> unat s"
    and b1: "32 \<le> unat s1"
    and fit: "unat hdr + unat s + unat s1 < 2 ^ 64"
  shows "coalesce m (hdr + 8) =
    (retag m (hdr - s0) (s + (s0 + s1)) False, hdr - s0 + 8)"
proof -
  let ?p0 = "hdr - s0" and ?v = "PACK (s + (s0 + s1)) FREE"
  have h: "HDRP (hdr + 8) = hdr" by (simp add: HDRP_def PREV_PTR_def TYPE_SIZE_def)
  have h2: "HDRP (hdr + 8 + s) = hdr + s" by (simp add: HDRP_def PREV_PTR_def TYPE_SIZE_def)
  have f: "NEXT_PTR (FTRP m (hdr + 8)) = hdr + s"
    using cur by (simp add: FTRP_def h NEXT_PTR_def TYPE_SIZE_def)
  have p: "PREV_PTR hdr = hdr - 8" by (simp add: PREV_PTR_def TYPE_SIZE_def)
  have pb: "HDRP (PREV_BLK_PTR m (hdr + 8)) = ?p0"
    using prev by (simp add: PREV_BLK_PTR_def h p HDRP_def PREV_PTR_def TYPE_SIZE_def)
  have up0: "unat ?p0 = unat hdr - unat s0"
    using b0 by (simp add: unat_sub_if_size)
  have uf: "unat (hdr - 8) = unat hdr - 8"
    using b0 by (simp add: unat_sub_if_size)
  have un: "unat (hdr + s) = unat hdr + unat s"
    using fit by (intro unat_plus_word) simp
  have uft: "unat (hdr + s + s1 - 8) = unat hdr + unat s + unat s1 - 8"
    using unat_footer [of s1 "hdr + s"] un b1 fit by (simp add: TYPE_SIZE_def)
  have g1: "GET (PUT m ?p0 ?v) hdr = GET m hdr"
    by (rule GET_PUT_far; use up0 b0 bs fit in \<open>simp?; arith?\<close>)
  have g1': "GET (PUT m ?p0 ?v) (hdr + s) = GET m (hdr + s)"
    by (rule GET_PUT_far; use up0 un b0 bs b1 fit in \<open>simp?; arith?\<close>)
  have g2: "GET (PUT m ?p0 ?v) (hdr - 8) = GET m (hdr - 8)"
    by (rule GET_PUT_far; use up0 uf b0 bs fit in \<open>simp?; arith?\<close>)
  have nb: "NEXT_BLK_PTR (PUT m ?p0 ?v) (hdr + 8) = hdr + 8 + s"
    using cur g1 by (simp add: NEXT_BLK_PTR_def h GET_SIZE_def)
  have ft: "FTRP (PUT m ?p0 ?v) (hdr + 8 + s) = ?p0 + (s + (s0 + s1)) - TYPE_SIZE"
    using nxt g1' by (simp add: FTRP_def h2 GET_SIZE_def)
  have e: "?p0 + (s + (s0 + s1)) - TYPE_SIZE = hdr + s + s1 - 8"
    by (simp add: TYPE_SIZE_def)
  have "GET (retag m ?p0 (s + (s0 + s1)) False) (hdr - 8) = GET (PUT m ?p0 ?v) (hdr - 8)"
    unfolding retag_def tag_free e
    by (rule GET_PUT_far; use uf uft b0 bs b1 fit in \<open>simp?; arith?\<close>)
  with g2 have "GET (retag m ?p0 (s + (s0 + s1)) False) (hdr - 8) = GET m (hdr - 8)"
    by simp
  with prev have g3: "GET_SIZE (retag m ?p0 (s + (s0 + s1)) False) (hdr - 8) = s0"
    by (simp add: GET_SIZE_def)
  have pb2: "PREV_BLK_PTR (retag m ?p0 (s + (s0 + s1)) False) (hdr + 8) = ?p0 + 8"
    using g3 by (simp add: PREV_BLK_PTR_def h p)
  show ?thesis
    unfolding coalesce_def Let_def h f p pb
    using prev cur nxt nb ft pb2
    by (simp add: retag_def tag_free)
qed

lemma seg_hdr:
  assumes "segment m hs he (xs @ (s, a) # ys)"
  shows "unat (hs + of_nat (span xs)) = unat hs + span xs"
    and "GET m (hs + of_nat (span xs)) = tag (s, a)"
    and "GET m (hs + of_nat (span xs) + s - TYPE_SIZE) = tag (s, a)"
    and "unat (hs + of_nat (span xs) + s) = unat hs + span xs + unat s"
    and "32 \<le> unat s" "32 dvd unat s"
proof -
  from assms have sp: "unat hs + span xs + unat s + span ys = unat he"
    and lay: "layout m hs (xs @ (s, a) # ys)" and ok: "block_ok (s, a)"
    by (simp_all add: segment_def)
  have lt: "unat hs + span xs + unat s + span ys < 2 ^ 64"
    using sp unsigned_less [of he, where ?'a = nat] by simp
  show u: "unat (hs + of_nat (span xs)) = unat hs + span xs"
    using lt by (intro unat_plus) simp
  show "unat (hs + of_nat (span xs) + s) = unat hs + span xs + unat s"
    using lt u unat_plus_word [of "hs + of_nat (span xs)" s] by simp
  from lay show "GET m (hs + of_nat (span xs)) = tag (s, a)"
    and "GET m (hs + of_nat (span xs) + s - TYPE_SIZE) = tag (s, a)"
    by (simp_all add: layout_append)
  from ok show "32 \<le> unat s" "32 dvd unat s" by (simp_all add: block_ok_def)
qed

lemma status_zero_iff: "((if a then ALLOC else FREE) = 0) = (\<not> a)"
  by (simp add: ALLOC_def FREE_def)

lemma seg_prev:
  assumes "segment m hs he (xs @ (s, a) # ys)"
  shows "(GET_STATUS m (hs + of_nat (span xs) - 8) = 0) = prev_free xs"
    and "prev_free xs \<Longrightarrow> GET_SIZE m (hs + of_nat (span xs) - 8) = fst (last xs)"
    and "prev_free xs \<Longrightarrow> 32 \<le> unat (fst (last xs)) \<and> 32 dvd unat (fst (last xs))
          \<and> span xs = span (butlast xs) + unat (fst (last xs))"
proof -
  have "(GET_STATUS m (hs + of_nat (span xs) - 8) = 0) = prev_free xs
    \<and> (prev_free xs \<longrightarrow> GET_SIZE m (hs + of_nat (span xs) - 8) = fst (last xs)
         \<and> 32 \<le> unat (fst (last xs)) \<and> 32 dvd unat (fst (last xs))
         \<and> span xs = span (butlast xs) + unat (fst (last xs)))"
  proof (cases xs rule: rev_cases)
    case Nil
    with assms show ?thesis by (simp add: segment_def prev_free_def)
  next
    case (snoc xs' b)
    from assms snoc have seg: "segment m hs he (xs' @ (fst b, snd b) # (s, a) # ys)"
      by simp
    have ok: "block_ok b" using assms snoc by (simp add: segment_def)
    have e: "hs + of_nat (span xs) - 8 = hs + of_nat (span xs') + fst b - TYPE_SIZE"
      using snoc by (simp add: TYPE_SIZE_def)
    have g: "GET m (hs + of_nat (span xs) - 8) = tag b"
      unfolding e using seg_hdr(3) [OF seg] by simp
    from GET_STATUS_tag [OF ok g] GET_SIZE_tag [OF ok g] ok snoc show ?thesis
      by (simp add: prev_free_def status_zero_iff block_ok_def)
  qed
  then show "(GET_STATUS m (hs + of_nat (span xs) - 8) = 0) = prev_free xs"
    and "prev_free xs \<Longrightarrow> GET_SIZE m (hs + of_nat (span xs) - 8) = fst (last xs)"
    and "prev_free xs \<Longrightarrow> 32 \<le> unat (fst (last xs)) \<and> 32 dvd unat (fst (last xs))
          \<and> span xs = span (butlast xs) + unat (fst (last xs))"
    by blast+
qed

lemma seg_next:
  assumes "segment m hs he (xs @ (s, a) # ys)"
  shows "(GET_STATUS m (hs + of_nat (span xs) + s) = 0) = next_free ys"
    and "next_free ys \<Longrightarrow> GET_SIZE m (hs + of_nat (span xs) + s) = fst (hd ys)"
    and "next_free ys \<Longrightarrow> 32 \<le> unat (fst (hd ys)) \<and> 32 dvd unat (fst (hd ys))
          \<and> span ys = unat (fst (hd ys)) + span (tl ys)"
proof -
  have "(GET_STATUS m (hs + of_nat (span xs) + s) = 0) = next_free ys
    \<and> (next_free ys \<longrightarrow> GET_SIZE m (hs + of_nat (span xs) + s) = fst (hd ys)
         \<and> 32 \<le> unat (fst (hd ys)) \<and> 32 dvd unat (fst (hd ys))
         \<and> span ys = unat (fst (hd ys)) + span (tl ys))"
  proof (cases ys)
    case Nil
    from assms Nil have "unat (hs + of_nat (span xs) + s) = unat he"
      using seg_hdr(4) [OF assms] by (simp add: segment_def)
    then have "hs + of_nat (span xs) + s = he" by (rule word_eq_unat)
    with assms Nil show ?thesis by (simp add: segment_def next_free_def)
  next
    case (Cons b ys')
    have ok: "block_ok b" using assms Cons by (simp add: segment_def)
    have g: "GET m (hs + of_nat (span xs) + s) = tag b"
      using assms Cons by (simp add: segment_def layout_append)
    from GET_STATUS_tag [OF ok g] GET_SIZE_tag [OF ok g] ok Cons show ?thesis
      by (simp add: next_free_def status_zero_iff block_ok_def)
  qed
  then show "(GET_STATUS m (hs + of_nat (span xs) + s) = 0) = next_free ys"
    and "next_free ys \<Longrightarrow> GET_SIZE m (hs + of_nat (span xs) + s) = fst (hd ys)"
    and "next_free ys \<Longrightarrow> 32 \<le> unat (fst (hd ys)) \<and> 32 dvd unat (fst (hd ys))
          \<and> span ys = unat (fst (hd ys)) + span (tl ys)"
    by blast+
qed

lemma unat_lt: "unat (p :: addr) < 2 ^ 64"
  using unsigned_less [of p, where ?'a = nat] by simp

lemma span_dvd: "list_all block_ok bs \<Longrightarrow> 32 dvd span bs"
  by (induction bs) (simp_all add: block_ok_def)

lemma only_tags_GET:
  assumes "only_tags m m' lo hi" and "unat p + 8 \<le> lo \<or> hi \<le> unat p" "unat p + 8 \<le> 2 ^ 64"
  shows "GET m' p = GET m p"
proof -
  from assms(2) show ?thesis
  proof
    assume "unat p + 8 \<le> lo"
    with assms(1) have "agree m m' 0 (unat p + 8)"
      by (auto simp: only_tags_def intro: agree_mono)
    with assms(3) show ?thesis
      by (intro GET_agree [where lo = 0 and hi = "unat p + 8"]) simp_all
  next
    assume "hi \<le> unat p"
    with assms(1,3) show ?thesis
      by (intro GET_agree [where lo = hi and hi = "2 ^ 64"]) (simp_all add: only_tags_def)
  qed
qed

lemma segment_retag:
  assumes seg: "segment m hs he (pre @ mid @ post)" and S: "unat S = span mid" "mid \<noteq> []"
  shows "segment (retag m (hs + of_nat (span pre)) S a) hs he (pre @ (S, a) # post)"
    and "only_tags m (retag m (hs + of_nat (span pre)) S a)
           (unat hs + span pre) (unat hs + span pre + unat S)"
proof -
  let ?hdr = "hs + of_nat (span pre)" and ?m' = "retag m (hs + of_nat (span pre)) S a"
  from seg have lay: "layout m hs (pre @ mid @ post)" and ok: "list_all block_ok (pre @ mid @ post)"
    and sp: "unat hs + span pre + span mid + span post = unat he" and hs16: "16 \<le> unat hs"
    and sen: "GET_STATUS m (hs - 8) \<noteq> 0" "GET_STATUS m he \<noteq> 0" and he8: "unat he + 8 \<le> 2 ^ 64"
    by (simp_all add: segment_def)
  have lt: "unat hs + span pre + unat S + span post < 2 ^ 64"
    using sp S unsigned_less [of he, where ?'a = nat] by simp
  have Sw: "S = of_nat (span mid)" using S(1) by (metis of_nat_unat ucast_id)
  have S32: "32 \<le> unat S" using span_pos [of mid] ok S by simp
  have Sok: "block_ok (S, a)" using S32 span_dvd [of mid] ok S by (simp add: block_ok_def)
  have hu: "unat ?hdr = unat hs + span pre" using lt by (intro unat_plus) simp
  have l1: "layout m hs pre" using lay by (simp add: layout_append)
  have l2: "layout m (?hdr + S) post" using lay unfolding Sw by (simp add: layout_append)
  have lay': "layout ?m' hs (pre @ (S, a) # post)"
    using l1 _ l2 _ Sok lt by (rule retag_layout) (use ok in simp_all)
  show ot: "only_tags m ?m' (unat hs + span pre) (unat hs + span pre + unat S)"
    using retag_only_tags [of S ?hdr m a] S32 hu lt by simp
  have u8: "unat (hs - 8) = unat hs - 8" using hs16 by (simp add: unat_sub_if_size)
  have g1: "GET ?m' (hs - 8) = GET m (hs - 8)"
    using ot by (rule only_tags_GET) (use u8 hs16 unat_lt [of hs] in simp_all)
  have g2: "GET ?m' he = GET m he"
    using ot by (rule only_tags_GET) (use sp S he8 in simp_all)
  show "segment ?m' hs he (pre @ (S, a) # post)"
    unfolding segment_def using lay' ok sp S hs16 sen he8 g1 g2 Sok
    by (simp add: GET_STATUS_def)
qed

lemma coalesce_segment:
  assumes seg: "segment m hs he (xs @ (s, False) # ys)"
  shows "coalesce m (hs + of_nat (span xs) + 8) =
     (if prev_free xs \<or> next_free ys
      then retag m (hs + of_nat (span (merge_pre xs))) (merge_size xs s ys) False else m,
      hs + of_nat (span (merge_pre xs)) + 8)"
proof -
  let ?hdr = "hs + of_nat (span xs)"
  note hd = seg_hdr [OF seg] and pv = seg_prev [OF seg] and nx = seg_next [OF seg]
  have cur: "GET_SIZE m ?hdr = s"
    using hd(2) hd(5,6) by (intro GET_SIZE_tag [where b = "(s, False)", simplified]) (simp_all add: block_ok_def)
  from seg have sp: "unat hs + span xs + unat s + span ys = unat he"
    by (simp add: segment_def)
  have lt: "unat hs + span xs + unat s + span ys < 2 ^ 64"
    using sp unsigned_less [of he, where ?'a = nat] by simp
  show ?thesis
  proof (cases "prev_free xs")
    case pf: False
    show ?thesis
    proof (cases "next_free ys")
      case False
      have h: "PREV_PTR (HDRP (?hdr + 8)) = ?hdr - 8"
        by (simp add: HDRP_def PREV_PTR_def TYPE_SIZE_def)
      have f: "NEXT_PTR (FTRP m (?hdr + 8)) = ?hdr + s"
        using cur by (simp add: FTRP_def HDRP_def PREV_PTR_def NEXT_PTR_def TYPE_SIZE_def)
      have "coalesce m (?hdr + 8) = (m, ?hdr + 8)"
        using pv(1) nx(1) pf False by (intro coalesce_none) (simp_all add: h f)
      with pf False show ?thesis by (simp add: merge_pre_def)
    next
      case True
      from nx(2,3) [OF True] have s1: "GET_SIZE m (?hdr + s) = fst (hd ys)"
        and b1: "32 dvd unat (fst (hd ys))" "span ys = unat (fst (hd ys)) + span (tl ys)"
        by simp_all
      have "unat (s + fst (hd ys)) = unat s + unat (fst (hd ys))"
        using lt b1 by (intro unat_plus_word) simp
      with hd(6) b1 have dvd: "32 dvd unat (s + fst (hd ys))" by simp
      have "coalesce m (?hdr + 8) = (retag m ?hdr (s + fst (hd ys)) False, ?hdr + 8)"
        using pv(1) nx(1) pf True cur s1 dvd by (intro coalesce_next) simp_all
      with pf True show ?thesis by (simp add: merge_pre_def merge_size_def)
    qed
  next
    case pf: True
    from pv(2,3) [OF pf] have s0: "GET_SIZE m (?hdr - 8) = fst (last xs)"
      and b0: "32 \<le> unat (fst (last xs))" "span xs = span (butlast xs) + unat (fst (last xs))"
      by simp_all
    have le: "unat (fst (last xs)) \<le> unat ?hdr" using hd(1) b0 by simp
    have "of_nat (span xs) = (of_nat (span (butlast xs)) :: addr) + fst (last xs)"
      using b0(2) by simp
    then have e: "?hdr - fst (last xs) = hs + of_nat (span (butlast xs))" by simp
    show ?thesis
    proof (cases "next_free ys")
      case False
      have "coalesce m (?hdr + 8) =
          (retag m (?hdr - fst (last xs)) (s + fst (last xs)) False, ?hdr - fst (last xs) + 8)"
        using pv(1) nx(1) pf False cur s0 b0 le hd(5) lt hd(1)
        by (intro coalesce_prev) simp_all
      then have "coalesce m (?hdr + 8) =
          (retag m (hs + of_nat (span (butlast xs))) (s + fst (last xs)) False,
           hs + of_nat (span (butlast xs)) + 8)"
        unfolding e .
      with pf False show ?thesis by (simp add: merge_pre_def merge_size_def)
    next
      case True
      from nx(2,3) [OF True] have s1: "GET_SIZE m (?hdr + s) = fst (hd ys)"
        and b1: "32 \<le> unat (fst (hd ys))" "span ys = unat (fst (hd ys)) + span (tl ys)"
        by simp_all
      have "coalesce m (?hdr + 8) =
          (retag m (?hdr - fst (last xs)) (s + (fst (last xs) + fst (hd ys))) False,
           ?hdr - fst (last xs) + 8)"
        using pv(1) nx(1) pf True cur s0 s1 b0 b1 le hd(5) lt hd(1)
        by (intro coalesce_both) simp_all
      then have "coalesce m (?hdr + 8) =
          (retag m (hs + of_nat (span (butlast xs))) (s + (fst (last xs) + fst (hd ys))) False,
           hs + of_nat (span (butlast xs)) + 8)"
        unfolding e .
      with pf True show ?thesis by (simp add: merge_pre_def merge_size_def add.assoc)
    qed
  qed
qed

lemma only_tags_refl: "only_tags m m lo hi"
  by (simp add: only_tags_def agree_refl)

lemma merge_size_unat:
  assumes seg: "segment m hs he (xs @ (s, False) # ys)"
  shows "unat (merge_size xs s ys) =
      unat s + (if prev_free xs then unat (fst (last xs)) else 0)
        + (if next_free ys then unat (fst (hd ys)) else 0)"
    and "span xs = span (merge_pre xs) + (if prev_free xs then unat (fst (last xs)) else 0)"
    and "span ys = (if next_free ys then unat (fst (hd ys)) else 0) + span (merge_post ys)"
proof -
  let ?a = "if prev_free xs then fst (last xs) else 0"
  let ?b = "if next_free ys then fst (hd ys) else 0"
  note pv = seg_prev [OF seg] and nx = seg_next [OF seg]
  from seg have sp: "unat hs + span xs + unat s + span ys = unat he"
    by (simp add: segment_def)
  have lt: "span xs + unat s + span ys < 2 ^ 64"
    using sp unat_lt [of he] by simp
  show x: "span xs = span (merge_pre xs) + (if prev_free xs then unat (fst (last xs)) else 0)"
    using pv(3) by (simp add: merge_pre_def)
  show y: "span ys = (if next_free ys then unat (fst (hd ys)) else 0) + span (merge_post ys)"
    using nx(3) by (simp add: merge_post_def)
  have a: "unat ?a \<le> span xs" using x by simp
  have b: "unat ?b \<le> span ys" using y by simp
  have 1: "unat (s + ?a) = unat s + unat ?a"
    using lt a by (intro unat_plus_word) simp
  have 2: "unat (s + ?a + ?b) = unat (s + ?a) + unat ?b"
    using lt a b 1 by (intro unat_plus_word) simp
  from 1 2 show "unat (merge_size xs s ys) =
      unat s + (if prev_free xs then unat (fst (last xs)) else 0)
        + (if next_free ys then unat (fst (hd ys)) else 0)"
    by (simp add: merge_size_def)
qed

lemma span_merge:
  assumes seg: "segment m hs he (xs @ (s, False) # ys)"
  shows "span (merge xs s ys) = span (xs @ (s, False) # ys)"
  using merge_size_unat [OF seg] by (simp add: merge_def)

lemma coalesce_result:
  assumes seg: "segment m hs he (xs @ (s, False) # ys)"
  shows "segment (fst (coalesce m (hs + of_nat (span xs) + 8))) hs he (merge xs s ys)"
    and "only_tags m (fst (coalesce m (hs + of_nat (span xs) + 8)))
          (unat hs + span (merge_pre xs))
          (unat hs + span (merge_pre xs) + unat (merge_size xs s ys))"
    and "snd (coalesce m (hs + of_nat (span xs) + 8)) = hs + of_nat (span (merge_pre xs)) + 8"
proof -
  note c = coalesce_segment [OF seg]
  from c show "snd (coalesce m (hs + of_nat (span xs) + 8)) = hs + of_nat (span (merge_pre xs)) + 8"
    by simp
  let ?px = "if prev_free xs then [last xs] else []"
  let ?nx = "if next_free ys then [hd ys] else []"
  let ?mid = "?px @ (s, False) # ?nx"
  have x: "xs = merge_pre xs @ ?px"
    by (simp add: merge_pre_def prev_free_def)
  have y: "ys = ?nx @ merge_post ys"
    by (simp add: merge_post_def next_free_def)
  have dec: "xs @ (s, False) # ys = merge_pre xs @ ?mid @ merge_post ys"
    using x y by (metis append.assoc append_Cons)
  have S: "unat (merge_size xs s ys) = span ?mid"
    using merge_size_unat(1) [OF seg] by simp
  from seg have seg': "segment m hs he (merge_pre xs @ ?mid @ merge_post ys)"
    unfolding dec .
  note r = segment_retag [OF seg' S, of False]
  show "segment (fst (coalesce m (hs + of_nat (span xs) + 8))) hs he (merge xs s ys)"
  proof (cases "prev_free xs \<or> next_free ys")
    case True
    with c r(1) show ?thesis by (simp add: merge_def)
  next
    case False
    then have "merge xs s ys = xs @ (s, False) # ys"
      by (simp add: merge_def merge_pre_def merge_post_def merge_size_def)
    with c False seg show ?thesis by simp
  qed
  show "only_tags m (fst (coalesce m (hs + of_nat (span xs) + 8)))
          (unat hs + span (merge_pre xs))
          (unat hs + span (merge_pre xs) + unat (merge_size xs s ys))"
  proof (cases "prev_free xs \<or> next_free ys")
    case True
    with c r(2) show ?thesis by simp
  next
    case False
    with c show ?thesis by (simp add: only_tags_refl)
  qed
qed

subsection \<open>Heap extension\<close>

text \<open>
  \<open>extend_heap(CHUNKSIZE)\<close> turns the old end sentinel and the 4096 new bytes into free
  blocks of 32 and 4064 bytes and coalesces; it fails only when the provider refuses.
\<close>

lemma starts_merge: "set (starts p xs) \<subseteq> set (starts p (merge xs s ys))"
proof (cases "prev_free xs")
  case True
  then have "xs = butlast xs @ [last xs]" by (simp add: prev_free_def)
  then have "starts p xs = starts p (butlast xs) @ [p + of_nat (span (butlast xs))]"
    by (metis starts_append starts.simps)
  with True show ?thesis by (auto simp: merge_def merge_pre_def starts_append)
next
  case False
  then show ?thesis by (auto simp: merge_def merge_pre_def starts_append)
qed

lemma extend_heap_fail:
  "\<not> unat (prov_brk h) + 4096 \<le> unat (prov_limit h) \<Longrightarrow>
    extend_heap h CHUNKSIZE = Inl (Panic ''Error when extend heap'')"
  by (simp add: extend_heap_def ds_sbrk_def CHUNKSIZE_def)

lemma tag_sentinel: "STATUS (PACK 0 ALLOC) \<noteq> 0"
  by (simp add: STATUS_def PACK_def ALLOC_def STATUS_MASK_def)

lemma extend_heap_mem:
  assumes seg: "segment m hs he bs" and fit: "unat he + 4128 < 2 ^ 64"
  defines "m2 \<equiv> retag m he 32 False"
  defines "m3 \<equiv> PUT m2 (he + 4096) (PACK 0 ALLOC)"
  defines "m5 \<equiv> retag m3 (he + 32) 4064 False"
  shows "segment m5 hs (he + 4096) (bs @ (32, False) # [(4064, False)])"
    and "agree m m5 0 (unat he)"
    and "GET_SIZE m5 (he + 24) = 32"
proof -
  from seg have lay: "layout m hs bs" and ok: "list_all block_ok bs"
    and sp: "unat hs + span bs = unat he" and hs16: "16 \<le> unat hs"
    and sen: "GET_STATUS m (hs - 8) \<noteq> 0"
    by (simp_all add: segment_def)
  have u32: "unat (he + 32) = unat he + 32"
    using fit unat_plus_word [of he 32] by simp
  have u4096: "unat (he + 4096) = unat he + 4096"
    using fit unat_plus_word [of he 4096] by simp
  have u24: "unat (he + 24) = unat he + 24"
    using fit unat_plus_word [of he 24] by simp
  have a12: "agree m m2 lo hi" if "hi \<le> unat he" for lo hi
    unfolding m2_def using that fit by (intro retag_agree) simp_all
  have a23: "agree m2 m3 lo hi" if "hi \<le> unat he + 4096" for lo hi
    unfolding m3_def using that fit u4096 by (intro agree_PUT) simp_all
  have a35: "agree m3 m5 lo hi" if "hi \<le> unat he + 32 \<or> unat he + 4096 \<le> lo" for lo hi
    unfolding m5_def using that fit u32 by (intro retag_agree) auto
  show a15: "agree m m5 0 (unat he)"
    by (rule agree_trans [OF agree_trans [OF a12 a23] a35]) simp_all
  have e24: "he + 32 - TYPE_SIZE = he + 24" and e4088: "he + 32 + 4064 - TYPE_SIZE = he + 4088"
    and e4096: "he + 32 + 4064 = he + 4096"
    by (simp_all add: TYPE_SIZE_def)
  have c2: "(16 :: nat) \<le> unat (32 :: ulong)" "unat he + unat (32 :: ulong) < 2 ^ 64"
    using fit by simp_all
  have b2: "GET m2 he = tag (32, False)" "GET m2 (he + 24) = tag (32, False)"
    unfolding m2_def using retag_block [OF c2, of m False, unfolded e24] by blast+
  have a25: "agree m2 m5 0 (unat he + 32)"
    by (rule agree_trans [OF a23 a35]) simp_all
  have g1: "GET m5 he = tag (32, False)"
    using GET_agree [OF a25, of he] b2 fit by simp
  have g2: "GET m5 (he + 24) = tag (32, False)"
    using GET_agree [OF a25, of "he + 24"] b2 u24 fit by simp
  from g2 show "GET_SIZE m5 (he + 24) = 32"
    using GET_SIZE_tag [of "(32, False)" m5 "he + 24"] by (simp add: block_ok_def)
  have c5: "(16 :: nat) \<le> unat (4064 :: ulong)" "unat (he + 32) + unat (4064 :: ulong) < 2 ^ 64"
    using fit u32 by simp_all
  have b5: "GET m5 (he + 32) = tag (4064, False)" "GET m5 (he + 4088) = tag (4064, False)"
    unfolding m5_def using retag_block [OF c5, of m3 False, unfolded e4088] by blast+
  have l1: "layout m5 hs bs"
    by (rule layout_agree [OF a15 _ lay ok]) (use sp fit in simp_all)
  have hw: "hs + of_nat (span bs) = he"
    by (rule word_eq_unat) (use sp unat_plus [of hs "span bs"] unat_lt [of he] in simp)
  have l: "layout m5 hs (bs @ (32, False) # [(4064, False)])"
    unfolding layout_append hw layout.simps fst_conv e24 e4088
    using l1 g1 g2 b5 by blast
  have u8: "unat (hs - 8) = unat hs - 8" using hs16 by (simp add: unat_sub_if_size)
  have s1: "GET m5 (hs - 8) = GET m (hs - 8)"
    using GET_agree [OF a15, of "hs - 8"] u8 hs16 sp fit by simp
  have a35': "agree m3 m5 (unat he + 4096) (2 ^ 64)"
    by (rule a35) simp
  have "GET m5 (he + 4096) = GET m3 (he + 4096)"
    by (rule GET_agree [OF a35']) (use u4096 fit in simp_all)
  then have s2: "GET m5 (he + 4096) = PACK 0 ALLOC"
    by (simp add: m3_def GET_PUT_same)
  show "segment m5 hs (he + 4096) (bs @ (32, False) # [(4064, False)])"
    unfolding segment_def using l ok sp u4096 hs16 sen s1 s2 fit tag_sentinel
    by (simp add: GET_STATUS_def block_ok_def)
qed


lemma extend_heap_eq:
  assumes v: "heap_end h = he" "prov_brk h = ob" "mem h = m"
    and room: "unat ob + 4096 \<le> unat (prov_limit h)"
    and a: "ob - he = 32" "ob + 4096 - 4 * TYPE_SIZE = he'" "he' - ob = 4064"
    and sz: "GET_SIZE (retag (PUT (retag m he 32 False) he' (PACK 0 ALLOC)) ob 4064 False)
        (PREV_PTR (HDRP (NEXT_PTR ob))) = 32"
    and b: "NEXT_PTR ob - 32 = bp"
  shows "extend_heap h CHUNKSIZE =
    Inr (h\<lparr>prov_brk := ob + 4096, ds_heap_start := prov_start h, ds_heap_brk := ob + 4096,
           mem := fst (coalesce (retag (PUT (retag m he 32 False) he' (PACK 0 ALLOC))
                     ob 4064 False) bp),
           heap_end := he'\<rparr>,
         snd (coalesce (retag (PUT (retag m he 32 False) he' (PACK 0 ALLOC)) ob 4064 False) bp))"
proof -
  have ne: "ob \<noteq> - 1"
  proof
    assume "ob = - 1"
    then have "unat ob = 2 ^ 64 - 1"
      by (simp add: unsigned_minus_1_eq_mask mask_eq_exp_minus_1)
    with room unat_lt [of "prov_limit h"] show False by simp
  qed
  have s: "ds_sbrk h CHUNKSIZE = (h\<lparr>prov_brk := ob + 4096\<rparr>, ob)"
    using room v by (simp add: ds_sbrk_def CHUNKSIZE_def)
  have d1: "(32 :: nat) dvd unat (32 :: ulong)" by simp
  have d2: "(32 :: nat) dvd unat (4064 :: ulong)" by simp
  have f1: "FTRP (PUT m he (PACK 32 FREE)) (NEXT_PTR he) = he + 32 - TYPE_SIZE"
    using FTRP_PUT [OF d1, of m he] by (simp add: NEXT_PTR_def TYPE_SIZE_def)
  have r1: "PUT (PUT m he (PACK 32 FREE)) (he + 32 - TYPE_SIZE) (PACK 32 FREE)
      = retag m he 32 False"
    by (simp add: retag_def tag_free)
  let ?m3 = "PUT (retag m he 32 False) he' (PACK 0 ALLOC)"
  have f2: "FTRP (PUT ?m3 ob (PACK 4064 FREE)) (NEXT_PTR ob) = ob + 4064 - TYPE_SIZE"
    using FTRP_PUT [OF d2, of ?m3 ob] by (simp add: NEXT_PTR_def TYPE_SIZE_def)
  have r2: "PUT (PUT ?m3 ob (PACK 4064 FREE)) (ob + 4064 - TYPE_SIZE) (PACK 4064 FREE)
      = retag ?m3 ob 4064 False"
    by (simp add: retag_def tag_free)
  have pb: "PREV_BLK_PTR (retag ?m3 ob 4064 False) (NEXT_PTR ob) = bp"
    unfolding PREV_BLK_PTR_def sz b ..
  show ?thesis
    unfolding extend_heap_def s prod.case
    using ne
    by (simp add: Let_def ds_heap_stat_def v a f1 r1 f2 r2 pb case_prod_beta)
qed

lemma span_merge_pre_le: "span (merge_pre xs) \<le> span xs"
proof (cases "prev_free xs")
  case True
  then have "xs = butlast xs @ [last xs]" by (simp add: prev_free_def)
  then have "span xs = span (butlast xs) + span [last xs]" by (metis span_simps(3))
  with True show ?thesis by (simp add: merge_pre_def)
next
  case False
  then show ?thesis by (simp add: merge_pre_def)
qed

lemma extend_heap_ok:
  assumes wf: "heap_wf h bs" and room: "unat (prov_brk h) + 4096 \<le> unat (prov_limit h)"
  shows "\<exists>h' bp. extend_heap h CHUNKSIZE = Inr (h', bp)
    \<and> heap_wf h' (merge bs 32 [(4064, False)])
    \<and> unat (prov_brk h') = unat (prov_brk h) + 4096
    \<and> prov_limit h' = prov_limit h \<and> heap_start h' = heap_start h
    \<and> agree (mem h) (mem h') 0 (unat (heap_start h) + span (merge_pre bs))"
proof -
  let ?m = "mem h" and ?hs = "heap_start h" and ?he = "heap_end h" and ?ob = "prov_brk h"
  let ?m5 = "retag (PUT (retag ?m ?he 32 False) (?he + 4096) (PACK 0 ALLOC)) (?he + 32) 4064 False"
  from wf have seg: "segment ?m ?hs ?he bs" and brk: "unat ?he + 32 = unat ?ob"
    and init: "mm_initialized h" "get_free_block h \<noteq> None"
    and cur: "get_free_block h = Some ap_NextFit \<longrightarrow> nf_ptr h \<in> set (starts ?hs bs)"
    by (simp_all add: heap_wf_def)
  have fit: "unat ?he + 4128 < 2 ^ 64"
    using brk room unat_lt [of "prov_limit h"] by simp
  have ob: "?ob = ?he + 32"
    by (rule word_eq_unat) (use brk fit unat_plus_word [of ?he 32] in simp)
  note em = extend_heap_mem [OF seg fit]
  have sp: "unat ?hs + span bs = unat ?he" using seg by (simp add: segment_def)
  have hw: "?hs + of_nat (span bs) = ?he"
    by (rule word_eq_unat) (use sp unat_plus [of ?hs "span bs"] unat_lt [of ?he] in simp)
  have p24: "PREV_PTR (HDRP (NEXT_PTR (?he + 32))) = ?he + 24"
    by (simp add: NEXT_PTR_def HDRP_def PREV_PTR_def TYPE_SIZE_def)
  have eq: "extend_heap h CHUNKSIZE =
    Inr (h\<lparr>prov_brk := ?he + 32 + 4096, ds_heap_start := prov_start h,
           ds_heap_brk := ?he + 32 + 4096,
           mem := fst (coalesce ?m5 (?he + 8)), heap_end := ?he + 4096\<rparr>,
         snd (coalesce ?m5 (?he + 8)))"
    by (rule extend_heap_eq [where he = ?he and ob = "?he + 32" and m = ?m])
      (use ob room em(3) p24 in \<open>simp_all add: TYPE_SIZE_def NEXT_PTR_def\<close>)
  note cr = coalesce_result [OF em(1), unfolded hw]
  let ?h' = "h\<lparr>prov_brk := ?he + 32 + 4096, ds_heap_start := prov_start h,
           ds_heap_brk := ?he + 32 + 4096,
           mem := fst (coalesce ?m5 (?he + 8)), heap_end := ?he + 4096\<rparr>"
  have u32: "unat (?he + 32) = unat ?he + 32"
    using fit unat_plus_word [of ?he 32] by simp
  have u1: "unat (?he + 32 + 4096) = unat (?he + 32) + unat (4096 :: ulong)"
    by (rule unat_plus_word) (use fit u32 in simp)
  have u: "unat (?he + 32 + 4096) = unat ?he + 4128" "unat (?he + 4096) = unat ?he + 4096"
    using fit u1 u32 unat_plus_word [of ?he 4096] by simp_all
  have c': "get_free_block h = Some ap_NextFit \<longrightarrow>
      nf_ptr h \<in> set (starts ?hs (merge bs 32 [(4064, False)]))"
    using cur starts_merge [of ?hs bs 32 "[(4064, False)]"] by blast
  have wf': "heap_wf ?h' (merge bs 32 [(4064, False)])"
    unfolding heap_wf_def using init c' cr(1) u brk room by simp
  have lo: "unat ?hs + span (merge_pre bs) \<le> unat ?he"
    using sp span_merge_pre_le [of bs] by simp
  have a1: "agree ?m ?m5 0 (unat ?hs + span (merge_pre bs))"
    by (rule agree_mono [OF em(2)]) (use lo in simp_all)
  have a2: "agree ?m5 (fst (coalesce ?m5 (?he + 8))) 0 (unat ?hs + span (merge_pre bs))"
    using cr(2) by (simp add: only_tags_def)
  have ag: "agree ?m (mem ?h') 0 (unat ?hs + span (merge_pre bs))"
    using agree_trans [OF a1 a2] by simp
  from eq wf' u brk ag show ?thesis
    by (intro exI [of _ ?h'] exI [of _ "snd (coalesce ?m5 (?he + 8))"]) simp
qed

subsection \<open>The allocation loop\<close>

text \<open>
  The loop of \<open>mm_malloc\<close> returns: every turn moves the break of the provider 4096
  bytes closer to its limit, so the loop ends with a fitting free block or with the
  failure of \<open>extend_heap\<close>.
\<close>

lemma keeps_refl: "keeps p m bs m bs"
  unfolding keeps_def by (auto simp: agree_refl)

lemma keeps_trans:
  assumes "keeps p m bs m' bs'" "keeps p m' bs' m'' bs''"
  shows "keeps p m bs m'' bs''"
  unfolding keeps_def
proof (intro allI impI)
  fix xs s ys
  assume b: "bs = xs @ (s, True) # ys"
  with assms(1) obtain xs' ys' where b': "bs' = xs' @ (s, True) # ys'" and sp: "span xs' = span xs"
    and a1: "agree m m' (p + span xs) (p + span xs + unat s)"
    unfolding keeps_def by blast
  from assms(2) b' obtain xs'' ys'' where b'': "bs'' = xs'' @ (s, True) # ys''"
    and sp': "span xs'' = span xs'"
    and a2: "agree m' m'' (p + span xs') (p + span xs' + unat s)"
    unfolding keeps_def by blast
  from a1 a2 sp have "agree m m'' (p + span xs) (p + span xs + unat s)"
    by (auto intro: agree_trans)
  with b'' sp sp' show "(\<exists>xs' ys'. bs'' = xs' @ (s, True) # ys' \<and> span xs' = span xs)
       \<and> agree m m'' (p + span xs) (p + span xs + unat s)"
    by auto
qed

lemma merge_pre_alloc:
  assumes "bs = xs @ (s, True) # ys"
  shows "\<exists>ys0. merge_pre bs = xs @ (s, True) # ys0"
proof (cases "prev_free bs")
  case False
  with assms show ?thesis by (simp add: merge_pre_def)
next
  case True
  show ?thesis
  proof (cases ys rule: rev_cases)
    case Nil
    with assms True show ?thesis by (simp add: prev_free_def)
  next
    case (snoc ys0 y)
    with assms have "butlast bs = xs @ (s, True) # ys0"
      by (simp add: butlast_append)
    with True show ?thesis by (simp add: merge_pre_def)
  qed
qed

lemma keeps_merge:
  assumes "agree m m' 0 (p + span (merge_pre bs))"
  shows "keeps p m bs m' (merge bs s2 zs)"
  unfolding keeps_def
proof (intro allI impI)
  fix xs s ys
  assume b: "bs = xs @ (s, True) # ys"
  from merge_pre_alloc [OF b] obtain ys0 where mp: "merge_pre bs = xs @ (s, True) # ys0" by blast
  then have "merge bs s2 zs = xs @ (s, True) # (ys0 @ (merge_size bs s2 zs, False) # merge_post zs)"
    by (simp add: merge_def)
  moreover have "agree m m' (p + span xs) (p + span xs + unat s)"
    by (rule agree_mono [OF assms]) (simp_all add: mp)
  ultimately show "(\<exists>xs' ys'. merge bs s2 zs = xs' @ (s, True) # ys' \<and> span xs' = span xs)
       \<and> agree m m' (p + span xs) (p + span xs + unat s)"
    by blast
qed

lemma fits_not_NULL:
  assumes "segment m hs he bs" "fits hs bs sz a"
  shows "a \<noteq> NULL"
proof -
  from assms(2) obtain xs s ys where b: "bs = xs @ (s, False) # ys" and a: "a = hs + of_nat (span xs)"
    unfolding fits_def by blast
  from assms(1) b have "unat a = unat hs + span xs"
    unfolding a by (intro seg_hdr(1)) simp
  moreover from assms(1) have "16 \<le> unat hs" by (simp add: segment_def)
  ultimately show ?thesis by (auto simp: NULL_def)
qed

lemma mm_malloc_loop_total:
  "n = unat (prov_limit h) - unat (prov_brk h) \<Longrightarrow> heap_wf h bs \<Longrightarrow>
   a = NULL \<or> fits (heap_start h) bs sz a \<Longrightarrow>
   \<exists>r. mm_malloc_loop sz h a = Some r \<and> loop_post h bs sz r"
proof (induction n arbitrary: h bs a rule: less_induct)
  case (less n)
  note wf = less.prems(2)
  show ?case
  proof (cases "a = NULL")
    case False
    with less.prems(3) have f: "fits (heap_start h) bs sz a" by simp
    have "mm_malloc_loop sz h a = Some (Inr (h, a))"
      using False by (subst mm_malloc_loop.simps) simp
    moreover have "loop_post h bs sz (Inr (h, a))"
      unfolding loop_post_def using wf f keeps_refl by blast
    ultimately show ?thesis by blast
  next
    case True
    show ?thesis
    proof (cases "unat (prov_brk h) + 4096 \<le> unat (prov_limit h)")
      case False
      then have "mm_malloc_loop sz h a = Some (Inl (Panic ''Error when extend heap''))"
        using True extend_heap_fail [of h] by (subst mm_malloc_loop.simps) simp
      then show ?thesis by (simp add: loop_post_def)
    next
      case room: True
      from extend_heap_ok [OF wf room] obtain h1 bp where
        e: "extend_heap h CHUNKSIZE = Inr (h1, bp)"
        and wf1: "heap_wf h1 (merge bs 32 [(4064, False)])"
        and brk1: "unat (prov_brk h1) = unat (prov_brk h) + 4096"
        and lim1: "prov_limit h1 = prov_limit h" and hs1: "heap_start h1 = heap_start h"
        and ag: "agree (mem h) (mem h1) 0 (unat (heap_start h) + span (merge_pre bs))"
        by blast
      let ?bs1 = "merge bs 32 [(4064, False)]"
      from search_wf [OF wf1, of sz] obtain c a1 where
        s: "call_get_free_block h1 sz = Some (Inr (h1\<lparr>nf_ptr := c\<rparr>, a1))"
        and wf2: "heap_wf (h1\<lparr>nf_ptr := c\<rparr>) ?bs1"
        and a1: "a1 = NULL \<or> fits (heap_start h1) ?bs1 sz a1"
        by blast
      let ?h2 = "h1\<lparr>nf_ptr := c\<rparr>"
      have m: "unat (prov_limit ?h2) - unat (prov_brk ?h2) < n"
        using less.prems(1) room brk1 lim1 by simp
      have a1': "a1 = NULL \<or> fits (heap_start ?h2) ?bs1 sz a1" using a1 by simp
      from less.IH [OF m refl wf2 a1'] obtain r where
        r: "mm_malloc_loop sz ?h2 a1 = Some r" and post: "loop_post ?h2 ?bs1 sz r"
        by auto
      have "mm_malloc_loop sz h a = Some r"
        using True e s r by (subst mm_malloc_loop.simps) simp
      moreover have "loop_post h bs sz r"
      proof -
        from post show ?thesis
          unfolding loop_post_def
        proof
          assume "r = Inl (Panic ''Error when extend heap'')"
          then show "r = Inl (Panic ''Error when extend heap'')
            \<or> (\<exists>h' bs' a'. r = Inr (h', a') \<and> heap_wf h' bs' \<and> fits (heap_start h') bs' sz a'
              \<and> heap_start h' = heap_start h
              \<and> keeps (unat (heap_start h)) (mem h) bs (mem h') bs')" by simp
        next
          assume "\<exists>h' bs' a'. r = Inr (h', a') \<and> heap_wf h' bs' \<and> fits (heap_start h') bs' sz a'
              \<and> heap_start h' = heap_start ?h2
              \<and> keeps (unat (heap_start ?h2)) (mem ?h2) ?bs1 (mem h') bs'"
          then obtain h' bs' a' where x: "r = Inr (h', a')" "heap_wf h' bs'"
            "fits (heap_start h') bs' sz a'" "heap_start h' = heap_start ?h2"
            "keeps (unat (heap_start ?h2)) (mem ?h2) ?bs1 (mem h') bs'" by blast
          have k1: "keeps (unat (heap_start h)) (mem h) bs (mem h1) ?bs1"
            using ag by (rule keeps_merge)
          have "keeps (unat (heap_start h)) (mem h) bs (mem h') bs'"
            using k1 x(5) hs1 by (auto intro: keeps_trans)
          with x hs1 show "r = Inl (Panic ''Error when extend heap'')
            \<or> (\<exists>h' bs' a'. r = Inr (h', a') \<and> heap_wf h' bs' \<and> fits (heap_start h') bs' sz a'
              \<and> heap_start h' = heap_start h
              \<and> keeps (unat (heap_start h)) (mem h) bs (mem h') bs')" by auto
        qed
      qed
      ultimately show ?thesis by blast
    qed
  qed
qed

subsection \<open>Placement\<close>

lemma tag_alloc: "tag (S, True) = PACK S ALLOC"
  by (simp add: tag_def)

lemma FTRP_PUT_tag:
  assumes "32 dvd unat S"
  shows "FTRP (PUT m hdr (tag (S, a))) (NEXT_PTR hdr) = hdr + S - TYPE_SIZE"
proof -
  have "GET_SIZE (PUT m hdr (tag (S, a))) hdr = S"
    using SIZE_PACK [OF assms, of a] by (simp add: GET_SIZE_def GET_PUT_same tag_def)
  then show ?thesis by (simp add: FTRP_def HDRP_def PREV_PTR_def NEXT_PTR_def TYPE_SIZE_def)
qed

lemma place_eq:
  assumes sz: "GET_SIZE m a = s" and A: "32 dvd unat A" and R: "32 dvd unat (s - A)"
  shows "place m a A =
    (if s > A then retag (retag m a A True) (a + A) (s - A) False else retag m a A True)"
proof -
  have 1: "PUT (PUT m a (PACK A ALLOC)) (FTRP (PUT m a (PACK A ALLOC)) (NEXT_PTR a)) (PACK A ALLOC)
      = retag m a A True"
    using FTRP_PUT_tag [OF A, of m a True] by (simp add: retag_def tag_alloc)
  have 2: "PUT (PUT m' (a + A) (PACK (s - A) FREE))
        (FTRP (PUT m' (a + A) (PACK (s - A) FREE)) (NEXT_PTR (a + A))) (PACK (s - A) FREE)
      = retag m' (a + A) (s - A) False" for m'
    using FTRP_PUT_tag [OF R, of m' "a + A" False] by (simp add: retag_def tag_free)
  show ?thesis
    unfolding place_def Let_def sz 1 2 ..
qed

lemma segment_split:
  assumes seg: "segment m hs he (xs @ (s, False) # ys)"
    and A: "block_ok (A, True)" and lt: "A < s"
  defines "a \<equiv> hs + of_nat (span xs)"
  defines "m' \<equiv> retag (retag m a A True) (a + A) (s - A) False"
  shows "segment m' hs he (xs @ (A, True) # (s - A, False) # ys)"
    and "agree m m' 0 (unat hs + span xs)"
    and "agree m m' (unat hs + span xs + unat s) (2 ^ 64)"
proof -
  note hd = seg_hdr [OF seg]
  from seg have lay: "layout m hs (xs @ (s, False) # ys)"
    and ok: "list_all block_ok (xs @ (s, False) # ys)"
    and sp: "unat hs + span xs + unat s + span ys = unat he" and hs16: "16 \<le> unat hs"
    and sen: "GET_STATUS m (hs - 8) \<noteq> 0" "GET_STATUS m he \<noteq> 0" and he8: "unat he + 8 \<le> 2 ^ 64"
    by (simp_all add: segment_def)
  from A have A32: "32 \<le> unat A" "32 dvd unat A" by (simp_all add: block_ok_def)
  from lt have ltn: "unat A < unat s" by (simp add: word_less_nat_alt)
  have uR: "unat (s - A) = unat s - unat A" using ltn by (simp add: unat_sub_if_size)
  have Rdvd: "32 dvd unat (s - A)" using uR hd(6) A32 ltn by (simp add: dvd_diff_nat)
  have R32: "32 \<le> unat (s - A)"
  proof -
    from Rdvd uR ltn have "0 < unat (s - A)" by simp
    with Rdvd show ?thesis by (auto elim!: dvdE)
  qed
  have ua: "unat a = unat hs + span xs" unfolding a_def by (rule hd(1))
  have fit: "unat a + unat s < 2 ^ 64" using ua sp unat_lt [of he] by simp
  have uaA: "unat (a + A) = unat a + unat A"
    using fit ltn by (intro unat_plus_word) simp
  let ?m2 = "retag m a A True"
  have c1: "16 \<le> unat A" "unat a + unat A < 2 ^ 64" using A32 fit ltn by simp_all
  have c2: "16 \<le> unat (s - A)" "unat (a + A) + unat (s - A) < 2 ^ 64"
    using R32 uaA uR fit ltn by simp_all
  have a12: "agree m ?m2 lo hi" if "hi \<le> unat a \<or> unat a + unat A \<le> lo" for lo hi
    using that c1 by (intro retag_agree) auto
  have a24: "agree ?m2 m' lo hi" if "hi \<le> unat a + unat A \<or> unat a + unat s \<le> lo" for lo hi
    unfolding m'_def using that c2 uaA uR ltn by (intro retag_agree) auto
  show lo: "agree m m' 0 (unat hs + span xs)"
    by (rule agree_trans [OF a12 a24]) (use ua in simp_all)
  show hi: "agree m m' (unat hs + span xs + unat s) (2 ^ 64)"
    by (rule agree_trans [OF a12 a24]) (use ua ltn in simp_all)
  have l1: "layout m' hs xs"
    by (rule layout_agree [OF lo]) (use lay ok sp unat_lt [of he] in \<open>simp_all add: layout_append\<close>)
  have e: "a + A + (s - A) = a + s" by simp
  have hi': "agree m m' (unat hs + span xs + unat s) (unat he)"
    by (rule agree_mono [OF hi]) (use unat_lt [of he] in simp_all)
  have l2: "layout m' (a + s) ys"
    by (rule layout_agree [OF hi'])
      (use lay ok sp hd(4) unat_lt [of he] in \<open>simp_all add: layout_append a_def\<close>)
  have g1: "GET m' a = tag (A, True)" "GET m' (a + A - TYPE_SIZE) = tag (A, True)"
  proof -
    have ag: "agree ?m2 m' 0 (unat a + unat A)" by (rule a24) simp
    have "unat (a + A - TYPE_SIZE) = unat a + unat A - 8" using c1 by (rule unat_footer)
    then show "GET m' a = tag (A, True)" "GET m' (a + A - TYPE_SIZE) = tag (A, True)"
      using GET_agree [OF ag, of a] GET_agree [OF ag, of "a + A - TYPE_SIZE"]
        retag_block [OF c1, of m True] A32 fit c1 by simp_all
  qed
  have g2: "GET m' (a + A) = tag (s - A, False)"
      "GET m' (a + A + (s - A) - TYPE_SIZE) = tag (s - A, False)"
    unfolding m'_def using retag_block [OF c2] by blast+
  have l: "layout m' hs (xs @ (A, True) # (s - A, False) # ys)"
    unfolding layout_append layout.simps fst_conv e a_def [symmetric]
    using l1 l2 g1 g2 [unfolded e] by blast
  have u8: "unat (hs - 8) = unat hs - 8" using hs16 by (simp add: unat_sub_if_size)
  have s1: "GET m' (hs - 8) = GET m (hs - 8)"
    by (rule GET_agree [OF lo]) (use u8 hs16 ua unat_lt [of a] in simp_all)
  have s2: "GET m' he = GET m he"
    by (rule GET_agree [OF hi]) (use sp he8 in simp_all)
  show "segment m' hs he (xs @ (A, True) # (s - A, False) # ys)"
    unfolding segment_def using l ok sp hs16 sen he8 s1 s2 A R32 Rdvd uR ltn
    by (simp add: GET_STATUS_def block_ok_def)
qed

lemma alloc_size_small:
  assumes "unat sz + 16 < 2 ^ 53"
  shows "unat (alloc_size_of sz) = (unat sz + 16 + 31) div 32 * 32"
    and "block_ok (alloc_size_of sz, a)"
    and "unat sz + 16 \<le> unat (alloc_size_of sz)"
proof -
  let ?n = "unat sz + 16" and ?k = "(unat sz + 16 + 31) div 32 * 32"
  have "unat (sz + 2 * TYPE_SIZE) = unat sz + unat (2 * TYPE_SIZE)"
    using assms by (intro unat_plus_word) (simp add: TYPE_SIZE_def)
  then have n: "unat (sz + 2 * TYPE_SIZE) = ?n" by (simp add: TYPE_SIZE_def)
  have td: "to_double ?n = ?n" using assms by (simp add: to_double_def)
  have k: "?k < 2 ^ 64" using assms by simp
  have e: "alloc_size_of sz = of_nat ?k"
    unfolding alloc_size_of_def n td ..
  have "unat (alloc_size_of sz) = ?k mod 2 ^ LENGTH(64)"
    unfolding e by (rule unat_of_nat)
  then show u: "unat (alloc_size_of sz) = ?k"
    using k by simp
  have "32 \<le> ?k" by simp
  moreover have "32 dvd ?k" by simp
  ultimately show "block_ok (alloc_size_of sz, a)" using u by (simp add: block_ok_def)
  show "unat sz + 16 \<le> unat (alloc_size_of sz)" unfolding u by presburger
qed


lemma keeps_replace:
  assumes lo: "agree m m' 0 (p + span xs)"
    and hi: "agree m m' (p + span xs + unat s) (2 ^ 64)"
    and mid: "span mid = unat s"
    and tot: "p + span (xs @ (s, False) # ys) \<le> 2 ^ 64"
  shows "keeps p m (xs @ (s, False) # ys) m' (xs @ mid @ ys)"
  unfolding keeps_def
proof (intro allI impI)
  fix us t vs
  assume e: "xs @ (s, False) # ys = us @ (t, True) # vs"
  then consider w where "xs = us @ w" "w @ (s, False) # ys = (t, True) # vs"
    | w where "xs @ w = us" "(s, False) # ys = w @ (t, True) # vs"
    by (auto simp: append_eq_append_conv2)
  then show "(\<exists>xs' ys'. xs @ mid @ ys = xs' @ (t, True) # ys' \<and> span xs' = span us)
       \<and> agree m m' (p + span us) (p + span us + unat t)"
  proof cases
    case 1
    from 1(2) obtain w' where w: "w = (t, True) # w'" by (cases w) auto
    with 1 have x: "xs = us @ (t, True) # w'" by simp
    then have "xs @ mid @ ys = us @ (t, True) # (w' @ mid @ ys)" by simp
    moreover have "agree m m' (p + span us) (p + span us + unat t)"
      by (rule agree_mono [OF lo]) (simp_all add: x)
    ultimately show ?thesis by blast
  next
    case 2
    from 2(2) obtain w' where w: "w = (s, False) # w'" by (cases w) auto
    with 2 have y: "ys = w' @ (t, True) # vs" and u: "us = xs @ (s, False) # w'" by simp_all
    have "xs @ mid @ ys = (xs @ mid @ w') @ (t, True) # vs" using y by simp
    moreover have "span (xs @ mid @ w') = span us" using u mid by simp
    moreover have "agree m m' (p + span us) (p + span us + unat t)"
      by (rule agree_mono [OF hi]) (use u y tot in simp_all)
    ultimately show ?thesis by blast
  qed
qed

lemma starts_replace:
  assumes "mid \<noteq> []" "span mid = unat s"
  shows "set (starts p (xs @ (s, False) # ys)) \<subseteq> set (starts p (xs @ mid @ ys))"
proof -
  have "(of_nat (span mid) :: addr) = s" using assms(2) by simp
  then have e: "p + of_nat (span xs) + of_nat (span mid) = p + of_nat (span xs) + s" by simp
  obtain b mid' where m: "mid = b # mid'" using assms(1) by (cases mid) auto
  show ?thesis
    using e by (auto simp: starts_append m add.assoc)
qed

lemma place_wf:
  assumes wf: "heap_wf h (xs @ (s, False) # ys)" and A: "block_ok (A, True)" and le: "A \<le> s"
  shows "\<exists>ys'. heap_wf (h\<lparr>mem := place (mem h) (heap_start h + of_nat (span xs)) A\<rparr>)
            (xs @ (A, True) # ys')
    \<and> keeps (unat (heap_start h)) (mem h) (xs @ (s, False) # ys)
        (place (mem h) (heap_start h + of_nat (span xs)) A) (xs @ (A, True) # ys')"
proof -
  let ?m = "mem h" and ?hs = "heap_start h" and ?he = "heap_end h"
  let ?a = "?hs + of_nat (span xs)"
  from wf have seg: "segment ?m ?hs ?he (xs @ (s, False) # ys)" by (simp add: heap_wf_def)
  note hd = seg_hdr [OF seg]
  from A have A32: "32 \<le> unat A" "32 dvd unat A" by (simp_all add: block_ok_def)
  from le have len: "unat A \<le> unat s" by (simp add: word_le_nat_alt)
  have uR: "unat (s - A) = unat s - unat A" using len by (simp add: unat_sub_if_size)
  have Rdvd: "32 dvd unat (s - A)" using uR hd(6) A32 len by (simp add: dvd_diff_nat)
  have sz: "GET_SIZE ?m ?a = s"
    using hd(2,5,6) by (intro GET_SIZE_tag [where b = "(s, False)", simplified]) (simp_all add: block_ok_def)
  note pe = place_eq [OF sz A32(2) Rdvd]
  from seg have sp: "unat ?hs + span (xs @ (s, False) # ys) = unat ?he" by (simp add: segment_def)
  have tot: "unat ?hs + span (xs @ (s, False) # ys) \<le> 2 ^ 64"
    using sp unat_lt [of ?he] by simp
  show ?thesis
  proof (cases "A < s")
    case True
    note ss = segment_split [OF seg A True]
    let ?m' = "retag (retag ?m ?a A True) (?a + A) (s - A) False"
    let ?bs' = "xs @ (A, True) # (s - A, False) # ys"
    have p: "place ?m ?a A = ?m'" using pe True by simp
    have sm: "span [(A, True), (s - A, False)] = unat s" using uR len by simp
    have st: "set (starts ?hs (xs @ (s, False) # ys)) \<subseteq> set (starts ?hs ?bs')"
      using starts_replace [of "[(A, True), (s - A, False)]" s ?hs xs ys] sm by simp
    have "heap_wf (h\<lparr>mem := ?m'\<rparr>) ?bs'"
      using wf ss(1) st unfolding heap_wf_def by auto
    moreover have "keeps (unat ?hs) ?m (xs @ (s, False) # ys) ?m' ?bs'"
      using keeps_replace [OF ss(2,3) sm tot] by simp
    ultimately show ?thesis unfolding p by blast
  next
    case False
    with le have eq: "A = s" by simp
    let ?m' = "retag ?m ?a A True"
    let ?bs' = "xs @ (A, True) # ys"
    have p: "place ?m ?a A = ?m'" using pe False by simp
    have seg': "segment ?m ?hs ?he (xs @ [(s, False)] @ ys)" using seg by simp
    have S: "unat A = span [(s, False)]" "[(s, False)] \<noteq> []" using eq by simp_all
    note sr = segment_retag [OF seg' S, of True]
    have sm: "span [(A, True)] = unat s" using eq by simp
    have st: "set (starts ?hs (xs @ (s, False) # ys)) \<subseteq> set (starts ?hs ?bs')"
      using starts_replace [of "[(A, True)]" s ?hs xs ys] sm by simp
    have "heap_wf (h\<lparr>mem := ?m'\<rparr>) ?bs'"
      using wf sr(1) st unfolding heap_wf_def by auto
    moreover have "keeps (unat ?hs) ?m (xs @ (s, False) # ys) ?m' ?bs'"
      using keeps_replace [of ?m ?m' "unat ?hs" xs s "[(A, True)]" ys] sr(2) sm tot eq
      by (simp add: only_tags_def)
    ultimately show ?thesis unfolding p by blast
  qed
qed

subsection \<open>Allocation\<close>

text \<open>
  On a heap that satisfies the invariant \<open>mm_malloc\<close> returns; unless the provider
  fails, the heap satisfies the invariant again, the new block is allocated with the
  computed size, and every block allocated before is where and what it was.
\<close>

lemma mm_malloc_loop_from_search:
  assumes wf: "heap_wf h bs"
  shows "\<exists>r. Option.bind (call_get_free_block h A)
            (\<lambda>r. case r of Inl e \<Rightarrow> Some (Inl e) | Inr (h1, a1) \<Rightarrow> mm_malloc_loop A h1 a1) = Some r
    \<and> loop_post h bs A r"
proof -
  from search_wf [OF wf, of A] obtain c a where
    s: "call_get_free_block h A = Some (Inr (h\<lparr>nf_ptr := c\<rparr>, a))"
    and wf0: "heap_wf (h\<lparr>nf_ptr := c\<rparr>) bs"
    and a: "a = NULL \<or> fits (heap_start h) bs A a"
    by blast
  have a': "a = NULL \<or> fits (heap_start (h\<lparr>nf_ptr := c\<rparr>)) bs A a" using a by simp
  from mm_malloc_loop_total [OF refl wf0 a'] obtain r where
    r: "mm_malloc_loop A (h\<lparr>nf_ptr := c\<rparr>) a = Some r"
    and p: "loop_post (h\<lparr>nf_ptr := c\<rparr>) bs A r" by blast
  from p have "loop_post h bs A r" by (simp add: loop_post_def)
  with s r show ?thesis by simp
qed

lemma mm_malloc_unfold:
  "mm_initialized h \<Longrightarrow> mm_malloc h sz =
    Option.bind (Option.bind (call_get_free_block h (alloc_size_of sz))
        (\<lambda>r. case r of Inl e \<Rightarrow> Some (Inl e)
          | Inr (h1, a1) \<Rightarrow> mm_malloc_loop (alloc_size_of sz) h1 a1))
      (\<lambda>r. case r of Inl e \<Rightarrow> Some (Inl e)
        | Inr (h2, a) \<Rightarrow> Some (Inr (h2\<lparr>mem := place (mem h2) a (alloc_size_of sz)\<rparr>, NEXT_PTR a)))"
  by (auto simp: mm_malloc_def Let_def split: Option.bind_splits sum.splits prod.splits)

lemma mm_malloc_spec:
  assumes wf: "heap_wf h bs" and small: "unat sz + 16 < 2 ^ 53"
  shows "\<exists>r. mm_malloc h sz = Some r \<and> malloc_post h bs (alloc_size_of sz) r"
proof -
  let ?A = "alloc_size_of sz"
  from wf have init: "mm_initialized h" by (simp add: heap_wf_def)
  from mm_malloc_loop_from_search [OF wf, of ?A] obtain r where
    r: "Option.bind (call_get_free_block h ?A)
            (\<lambda>r. case r of Inl e \<Rightarrow> Some (Inl e) | Inr (h1, a1) \<Rightarrow> mm_malloc_loop ?A h1 a1) = Some r"
    and p: "loop_post h bs ?A r" by blast
  from p show ?thesis unfolding loop_post_def
  proof
    assume "r = Inl (Panic ''Error when extend heap'')"
    with r have "mm_malloc h sz = Some (Inl (Panic ''Error when extend heap''))"
      by (simp add: mm_malloc_unfold [OF init])
    then show ?thesis by (simp add: malloc_post_def)
  next
    assume "\<exists>h' bs' a'. r = Inr (h', a') \<and> heap_wf h' bs' \<and> fits (heap_start h') bs' ?A a'
        \<and> heap_start h' = heap_start h \<and> keeps (unat (heap_start h)) (mem h) bs (mem h') bs'"
    then obtain h2 bs2 a2 where r2: "r = Inr (h2, a2)" and wf2: "heap_wf h2 bs2"
      and f: "fits (heap_start h2) bs2 ?A a2" and hs: "heap_start h2 = heap_start h"
      and k: "keeps (unat (heap_start h)) (mem h) bs (mem h2) bs2" by blast
    from f obtain xs s ys where b2: "bs2 = xs @ (s, False) # ys"
      and a2: "a2 = heap_start h2 + of_nat (span xs)" and le: "?A \<le> s"
      unfolding fits_def by blast
    from place_wf [OF wf2 [unfolded b2] alloc_size_small(2) [OF small] le] obtain ys' where
      wf': "heap_wf (h2\<lparr>mem := place (mem h2) a2 ?A\<rparr>) (xs @ (?A, True) # ys')"
      and k': "keeps (unat (heap_start h2)) (mem h2) bs2 (place (mem h2) a2 ?A)
        (xs @ (?A, True) # ys')"
      unfolding a2 b2 by blast
    have "mm_malloc h sz = Some (Inr (h2\<lparr>mem := place (mem h2) a2 ?A\<rparr>, NEXT_PTR a2))"
      using r r2 by (simp add: mm_malloc_unfold [OF init])
    moreover have "NEXT_PTR a2 = heap_start h + of_nat (span xs) + 8"
      by (simp add: a2 hs NEXT_PTR_def TYPE_SIZE_def)
    moreover have "keeps (unat (heap_start h)) (mem h) bs
        (mem (h2\<lparr>mem := place (mem h2) a2 ?A\<rparr>)) (xs @ (?A, True) # ys')"
      using keeps_trans [OF k] k' hs by simp
    ultimately show ?thesis
      unfolding malloc_post_def using wf' hs by auto
  qed
qed

subsection \<open>The next-fit cursor\<close>

text \<open>
  C8. Under the next-fit policy (the flag \<open>nf\<close>, which \<open>mm_init\<close> sets for that policy
  alone), releasing the block the cursor \<open>nf_ptr\<close> refers to returns with the cursor
  equal to \<open>heap_start\<close>, which the call leaves as it was.
\<close>

theorem free_resets_cursor:
  assumes "mm_initialized h" "nf h" "bp \<noteq> NULL" "HDRP bp = nf_ptr h"
  shows "\<exists>h'. mm_free h bp = Inr h' \<and> nf_ptr h' = heap_start h'
    \<and> heap_start h' = heap_start h"
  using assms by (simp add: mm_free_def Let_def)

theorem free_resets_cursor_witness:
  "mm_initialized (after_two ap_NextFit) \<and> nf (after_two ap_NextFit)
   \<and> 65608 \<noteq> NULL \<and> HDRP 65608 = nf_ptr (after_two ap_NextFit)
   \<and> nf_ptr (after_two ap_NextFit) \<noteq> heap_start (after_two ap_NextFit)
   \<and> (\<exists>h'. mm_free (after_two ap_NextFit) 65608 = Inr h' \<and> nf_ptr h' = heap_start h'
        \<and> heap_start h' = heap_start (after_two ap_NextFit))"
proof -
  have a: "mm_initialized (after_two ap_NextFit)" "nf (after_two ap_NextFit)"
    "(65608 :: addr) \<noteq> NULL" "HDRP 65608 = nf_ptr (after_two ap_NextFit)"
    "nf_ptr (after_two ap_NextFit) \<noteq> heap_start (after_two ap_NextFit)"
    by (simp_all add: after_two_nf arena_sel macro_defs)
  from a free_resets_cursor [OF a(1-4)] show ?thesis by blast
qed

subsection \<open>Zeroed allocation\<close>

lemma uint_max_div:
  fixes nmemb sz :: ulong
  assumes "nmemb \<noteq> 0"
  shows "(UINT_MAX div nmemb < sz) = (4294967295 < unat nmemb * unat sz)"
proof -
  have n: "0 < unat nmemb" using assms by (simp add: unat_gt_0)
  have "(UINT_MAX div nmemb < sz) = (unat (UINT_MAX div nmemb) < unat sz)"
    by (simp add: word_less_nat_alt)
  also have "unat (UINT_MAX div nmemb) = 4294967295 div unat nmemb"
    by (simp add: unat_div UINT_MAX_def)
  also have "(4294967295 div unat nmemb < unat sz) = (4294967295 < unat sz * unat nmemb)"
    using n by (simp add: div_less_iff_less_mult)
  finally show ?thesis by (simp add: mult.commute)
qed

text \<open>
  C10. For nonzero \<open>nmemb\<close> and \<open>sz\<close> whose product as natural numbers exceeds
  \<open>UINT_MAX = 2^32 - 1\<close>, \<open>mm_calloc\<close> does not return: on an initialised heap it
  leaves through its \<open>PANIC\<close>, otherwise through its assertion. The product need not
  overflow a \<open>size_t\<close> for that.
\<close>

theorem calloc_fatal_beyond_uint_max:
  assumes "nmemb \<noteq> 0" "sz \<noteq> 0" "4294967295 < unat nmemb * unat sz"
  shows "mm_calloc h nmemb sz =
     Some (Inl (if mm_initialized h then Panic ''Arithmetic overflow while mm_calloc''
                else AssertionFailed))"
  using assms by (simp add: mm_calloc_def uint_max_div)

theorem calloc_fatal_beyond_uint_max_witness:
  "(65536 :: ulong) \<noteq> 0 \<and> 4294967295 < unat (65536 :: ulong) * unat (65536 :: ulong)
   \<and> unat (65536 :: ulong) * unat (65536 :: ulong) < 2 ^ 64
   \<and> mm_calloc (fresh ap_FirstFit) 65536 65536 =
       Some (Inl (if mm_initialized (fresh ap_FirstFit)
                  then Panic ''Arithmetic overflow while mm_calloc'' else AssertionFailed))"
proof -
  have a: "(65536 :: ulong) \<noteq> 0" "4294967295 < unat (65536 :: ulong) * unat (65536 :: ulong)"
    by simp_all
  from a calloc_fatal_beyond_uint_max [OF a(1) a(1) a(2)] show ?thesis by simp
qed

text \<open>
  C6. \<open>mm_calloc(65536, 65536)\<close> on the fresh heap: the product \<open>2^32\<close> fits a
  \<open>size_t\<close>, and \<open>mm_calloc\<close> leaves through \<open>PANIC\<close> where the claim has it
  allocate and clear a block.
\<close>

theorem calloc_panics_without_overflow:
  "mm_calloc (fresh ap_FirstFit) 65536 65536 =
     Some (Inl (Panic ''Arithmetic overflow while mm_calloc''))
   \<and> unat (65536 :: ulong) * unat (65536 :: ulong) < 2 ^ 64"
  by (simp add: mm_calloc_def fresh_eq arena_sel macro_defs)

subsection \<open>Resizing to zero\<close>

text \<open>
  C5. \<open>p = mm_malloc(16)\<close> on the fresh first-fit heap, then \<open>mm_realloc(p, 0)\<close>:
  the call releases the block, reads its header again, takes the shrinking branch
  and returns \<open>p\<close>, not \<open>NULL\<close>, with the block marked allocated once more.
\<close>

theorem realloc_zero_returns_block:
  "addr_of (mm_malloc (fresh ap_FirstFit) 16) = Some 65576
   \<and> addr_of (mm_realloc (heap_of (mm_malloc (fresh ap_FirstFit) 16)) 65576 0) = Some 65576
   \<and> GET (mem (heap_of (mm_realloc (heap_of (mm_malloc (fresh ap_FirstFit) 16)) 65576 0)))
        (HDRP 65576) = PACK 32 ALLOC"
proof -
  have "mm_realloc (arena ap_FirstFit False 0
       (stores [(65560, 1), (65568, 33), (65592, 33), (65600, 4000), (69592, 4000),
                (69600, 1)])) 65576 0 =
     Some (Inr (arena ap_FirstFit False 0
       (stores [(65560, 1), (65568, 33), (65592, 33), (65600, 4000), (69592, 4000),
                (69600, 1)]), 65576))"
    by (simp add: eval_simps)
  then show ?thesis
    by (simp add: ff_malloc_a heap_of_def addr_of_def arena_sel GET_stores macro_defs)
qed

subsection \<open>Tags and neighbours after resizing to zero\<close>

text \<open>
  C3. First fit on the fresh heap: \<open>a = mm_malloc(16)\<close>, \<open>b = mm_malloc(48)\<close>,
  \<open>c = mm_malloc(16)\<close>, \<open>mm_free(a)\<close>, \<open>mm_realloc(b, 0)\<close>. When the last call has
  returned, the first block of the heap has a header of 96 bytes, free, and a footer of
  32 bytes, free.
\<close>

theorem realloc_zero_breaks_tag_agreement:
  "GET (mem (heap_of (mm_realloc (freed (mm_free (heap_of (mm_malloc (heap_of
      (mm_malloc (heap_of (mm_malloc (fresh ap_FirstFit) 16)) 48)) 16)) 65576)) 65608 0)))
      65568 = PACK 96 FREE
   \<and> GET (mem (heap_of (mm_realloc (freed (mm_free (heap_of (mm_malloc (heap_of
      (mm_malloc (heap_of (mm_malloc (fresh ap_FirstFit) 16)) 48)) 16)) 65576)) 65608 0)))
      (65568 + 96 - TYPE_SIZE) = PACK 32 FREE"
  by (simp add: ff_malloc_a ff_malloc_b ff_malloc_c ff_free_a ff_realloc_b_0 heap_of_def
      freed_def arena_sel GET_stores macro_defs)

text \<open>
  C2. The same calls followed by \<open>mm_free(c)\<close>: the block sequence then starts with a
  free block of 96 bytes at \<open>heap_start\<close>, followed by a free block of 32 bytes, followed
  by a free block of 3904 bytes.
\<close>

theorem free_leaves_adjacent_free_blocks:
  "GET (mem (freed (mm_free (heap_of (mm_realloc (freed (mm_free (heap_of (mm_malloc (heap_of
      (mm_malloc (heap_of (mm_malloc (fresh ap_FirstFit) 16)) 48)) 16)) 65576)) 65608 0))
      65672))) 65568 = PACK 96 FREE
   \<and> GET (mem (freed (mm_free (heap_of (mm_realloc (freed (mm_free (heap_of (mm_malloc (heap_of
      (mm_malloc (heap_of (mm_malloc (fresh ap_FirstFit) 16)) 48)) 16)) 65576)) 65608 0))
      65672))) (65568 + 96) = PACK 32 FREE
   \<and> GET (mem (freed (mm_free (heap_of (mm_realloc (freed (mm_free (heap_of (mm_malloc (heap_of
      (mm_malloc (heap_of (mm_malloc (fresh ap_FirstFit) 16)) 48)) 16)) 65576)) 65608 0))
      65672))) (65568 + 96 + 32) = PACK 3904 FREE"
  by (simp add: ff_malloc_a ff_malloc_b ff_malloc_c ff_free_a ff_realloc_b_0 ff_free_c
      heap_of_def freed_def arena_sel GET_stores macro_defs)

subsection \<open>Best fit on a large free block\<close>

text \<open>
  C4. On \<open>large_free\<close> the only block is free and has \<open>2^32 + 4032\<close> bytes; a request
  for 32 bytes leaves \<open>2^32 + 4000\<close>, which is not below the initial
  \<open>bf_fragmentation = UINT_MAX\<close>, so best fit returns \<open>NULL\<close>. First fit returns the
  block.
\<close>

theorem best_fit_misses_large_block:
  "GET_STATUS (mem large_free) (heap_start large_free) = FREE
   \<and> 32 \<le> GET_SIZE (mem large_free) (heap_start large_free)
   \<and> bf_loop (mem large_free) (heap_end large_free) 32 NULL UINT_MAX (heap_start large_free)
       = Some NULL
   \<and> ff_loop (mem large_free) (heap_end large_free) 32 (heap_start large_free)
       = Some (heap_start large_free)"
  by (simp add: large_free_def bf_loop.simps ff_loop.simps GET_stores macro_defs)

subsection \<open>The fresh heap satisfies the invariant\<close>

lemma fresh_wf: "heap_wf (fresh ap) [(4032, False)]"
  by (simp add: fresh_eq heap_wf_def segment_def arena_sel fresh_mem_def GET_stores macro_defs
      tag_def block_ok_def)

subsection \<open>Termination of allocation\<close>

text \<open>
  On a heap that satisfies the invariant \<open>mm_malloc\<close> returns for every requested
  size: the search-extend-retry loop ends. What it returns is the fatal exit of
  \<open>extend_heap\<close> or a non-null address strictly between \<open>heap_start\<close> and
  \<open>heap_end\<close>. When the size computation is exact the address is the payload of an
  allocated block of the computed size in a heap that satisfies the invariant again;
  for the other sizes nothing is said about the block at that address.
\<close>

lemma malloc_returns:
  assumes wf: "heap_wf h bs"
  shows "\<exists>r. mm_malloc h sz = Some r
    \<and> (r = Inl (Panic ''Error when extend heap'')
       \<or> (\<exists>h' p. r = Inr (h', p) \<and> p \<noteq> NULL
            \<and> unat (heap_start h') < unat p \<and> unat p < unat (heap_end h')
            \<and> (unat sz + 16 < 2 ^ 53 \<longrightarrow>
                 (\<exists>xs ys. heap_wf h' (xs @ (alloc_size_of sz, True) # ys)
                    \<and> p = heap_start h' + of_nat (span xs) + 8))))"
proof -
  let ?A = "alloc_size_of sz"
  from wf have init: "mm_initialized h" by (simp add: heap_wf_def)
  from mm_malloc_loop_from_search [OF wf, of ?A] obtain r where
    r: "Option.bind (call_get_free_block h ?A)
            (\<lambda>r. case r of Inl e \<Rightarrow> Some (Inl e) | Inr (h1, a1) \<Rightarrow> mm_malloc_loop ?A h1 a1) = Some r"
    and p: "loop_post h bs ?A r" by blast
  from p show ?thesis unfolding loop_post_def
  proof
    assume "r = Inl (Panic ''Error when extend heap'')"
    with r have "mm_malloc h sz = Some (Inl (Panic ''Error when extend heap''))"
      by (simp add: mm_malloc_unfold [OF init])
    then show ?thesis by simp
  next
    assume "\<exists>h' bs' a'. r = Inr (h', a') \<and> heap_wf h' bs' \<and> fits (heap_start h') bs' ?A a'
        \<and> heap_start h' = heap_start h \<and> keeps (unat (heap_start h)) (mem h) bs (mem h') bs'"
    then obtain h2 bs2 a2 where r2: "r = Inr (h2, a2)" and wf2: "heap_wf h2 bs2"
      and f: "fits (heap_start h2) bs2 ?A a2" and hs2: "heap_start h2 = heap_start h" by blast
    from f obtain xs s ys where b2: "bs2 = xs @ (s, False) # ys"
      and a2: "a2 = heap_start h2 + of_nat (span xs)"
      unfolding fits_def by blast
    from wf2 have seg: "segment (mem h2) (heap_start h2) (heap_end h2) (xs @ (s, False) # ys)"
      by (simp add: heap_wf_def b2)
    note hd = seg_hdr [OF seg]
    from seg have sp: "unat (heap_start h2) + span xs + unat s + span ys = unat (heap_end h2)"
      by (simp add: segment_def)
    have ua: "unat a2 = unat (heap_start h2) + span xs" unfolding a2 by (rule hd(1))
    have "unat (a2 + 8) = unat a2 + unat (8 :: addr)"
      by (rule unat_plus_word) (use ua sp hd(5) unat_lt [of "heap_end h2"] in simp)
    then have up: "unat (NEXT_PTR a2) = unat (heap_start h2) + span xs + 8"
      using ua by (simp add: NEXT_PTR_def TYPE_SIZE_def)
    let ?h' = "h2\<lparr>mem := place (mem h2) a2 ?A\<rparr>"
    have m: "mm_malloc h sz = Some (Inr (?h', NEXT_PTR a2))"
      using r r2 by (simp add: mm_malloc_unfold [OF init])
    have 1: "NEXT_PTR a2 \<noteq> NULL" using up by (auto simp: NULL_def)
    have 2: "unat (heap_start ?h') < unat (NEXT_PTR a2)" using up by simp
    have 3: "unat (NEXT_PTR a2) < unat (heap_end ?h')" using up sp hd(5) by simp
    have 4: "\<exists>xs ys. heap_wf ?h' (xs @ (?A, True) # ys)
        \<and> NEXT_PTR a2 = heap_start ?h' + of_nat (span xs) + 8"
      if small: "unat sz + 16 < 2 ^ 53"
    proof -
      from mm_malloc_spec [OF wf small] m have "malloc_post h bs ?A (Inr (?h', NEXT_PTR a2))"
        by simp
      then show ?thesis unfolding malloc_post_def using hs2 by auto
    qed
    from m 1 2 3 4 show ?thesis by blast
  qed
qed

lemma malloc_returns_fresh:
  "heap_wf (fresh ap_FirstFit) [(4032, False)]
   \<and> (\<exists>r. mm_malloc (fresh ap_FirstFit) 16 = Some r
    \<and> (r = Inl (Panic ''Error when extend heap'')
       \<or> (\<exists>h' p. r = Inr (h', p) \<and> p \<noteq> NULL
            \<and> unat (heap_start h') < unat p \<and> unat p < unat (heap_end h')
            \<and> (unat (16 :: ulong) + 16 < 2 ^ 53 \<longrightarrow>
                 (\<exists>xs ys. heap_wf h' (xs @ (alloc_size_of 16, True) # ys)
                    \<and> p = heap_start h' + of_nat (span xs) + 8)))))"
  using malloc_returns [OF fresh_wf, of ap_FirstFit 16] fresh_wf
  by blast

subsection \<open>Allocation with a size that wraps\<close>

text \<open>
  The block size computed for the requests \<open>2^64 - 16\<close> and \<open>2^64 - 17\<close> is 0:
  \<open>size + 16\<close> wraps to 0 for the first, and for the second it is \<open>2^64 - 1\<close>, which
  the conversion to \<open>double\<close> rounds to \<open>2^64\<close>.
\<close>

lemma bit_length_between: "2 ^ k \<le> n \<Longrightarrow> n < 2 ^ Suc k \<Longrightarrow> bit_length n = Suc k"
proof (induction k arbitrary: n)
  case 0
  then have "n = 1" by simp
  then show ?case
    by (simp del: bit_length.simps add: bit_length.simps [of "Suc 0"] bit_length.simps [of 0])
next
  case (Suc k)
  from Suc.prems have "2 ^ k \<le> n div 2" "n div 2 < 2 ^ Suc k" "n \<noteq> 0" by auto
  with Suc.IH [of "n div 2"] show ?case
    by (simp del: bit_length.simps add: bit_length.simps [of n])
qed

lemma to_double_max: "to_double 18446744073709551615 = 18446744073709551616"
proof -
  have b: "bit_length 18446744073709551615 = 64"
    using bit_length_between [of 63 18446744073709551615] by simp
  show ?thesis
    unfolding to_double_def b Let_def by simp
qed

lemma alloc_size_of_minus_17: "alloc_size_of (- 17) = 0"
proof -
  have u: "unat (- 1 :: ulong) = 18446744073709551615"
    by (simp add: unsigned_minus_1_eq_mask mask_eq_exp_minus_1)
  have "alloc_size_of (- 17) = of_nat ((to_double (unat (- 1 :: ulong)) + 31) div 32 * 32)"
    by (simp add: alloc_size_of_def TYPE_SIZE_def)
  also have "\<dots> = 0" unfolding u to_double_max by simp
  finally show ?thesis .
qed

lemma alloc_size_of_minus_16: "alloc_size_of (- 16) = 0"
  by (simp add: alloc_size_of_def to_double_def macro_defs)

text \<open>\<open>mm_malloc(2^64 - 17)\<close> and \<open>mm_malloc(2^64 - 16)\<close> on the fresh heap.\<close>

lemma ff_malloc_wrap_17:
  "mm_malloc (fresh ap_FirstFit) (- 17) = Some (Inr (arena ap_FirstFit False 0 fresh_mem, 65576))"
  by (simp add: eval_simps alloc_size_of_minus_17)

lemma ff_malloc_wrap_16:
  "mm_malloc (fresh ap_FirstFit) (- 16) = Some (Inr (arena ap_FirstFit False 0 fresh_mem, 65576))"
  by (simp add: eval_simps alloc_size_of_minus_16)

text \<open>
  C9. \<open>mm_malloc(2^64 - 17)\<close> on the fresh heap returns at once, without a failure
  and without extending the heap, but what it returns is not the payload of an
  allocated block: the computed block size is 0, the search accepts the free block of
  4032 bytes at \<open>heap_start\<close>, the header written for size 0 is overwritten by the
  header of the split-off rest of 4032 bytes at the same address (the footer for size 0
  falls on the start sentinel, which holds that value already), and the heap is the
  fresh heap again, its one block still \<open>FREE\<close>. The call returns \<open>heap_start + 8\<close>;
  the next \<open>mm_malloc(16)\<close> returns the same address. \<open>mm_malloc(2^64 - 16)\<close> does
  the same.
\<close>

theorem malloc_wrapped_size_returns_free_block:
  "mm_malloc (fresh ap_FirstFit) (- 17) = Some (Inr (fresh ap_FirstFit, 65576))
   \<and> mm_malloc (fresh ap_FirstFit) (- 16) = Some (Inr (fresh ap_FirstFit, 65576))
   \<and> GET (mem (fresh ap_FirstFit)) (HDRP 65576) = PACK 4032 FREE
   \<and> GET (mem (fresh ap_FirstFit)) (FTRP (mem (fresh ap_FirstFit)) 65576) = PACK 4032 FREE
   \<and> addr_of (mm_malloc (fresh ap_FirstFit) 16) = Some 65576"
  using ff_malloc_wrap_17 ff_malloc_wrap_16 ff_malloc_a
  by (simp add: fresh_eq arena_sel fresh_mem_def GET_stores macro_defs addr_of_def)

subsection \<open>Where the allocated block lies\<close>

text \<open>
  The first allocation of 16 bytes on the fresh heap returns \<open>heap_start + 8\<close>: the
  payload is not a multiple of 32 bytes away from \<open>heap_start\<close>.
\<close>

theorem malloc_payload_offset_8:
  "mm_malloc (fresh ap_FirstFit) 16 =
     Some (Inr (arena ap_FirstFit False 0
       (stores [(65560, 1), (65568, 33), (65592, 33), (65600, 4000), (69592, 4000),
                (69600, 1)]), 65576))
   \<and> heap_start (fresh ap_FirstFit) = 65568
   \<and> unat (65576 - heap_start (fresh ap_FirstFit)) mod 32 = 8"
  using ff_malloc_a by (simp add: fresh_eq arena_sel)

text \<open>
  C1, amended. On a heap that satisfies the invariant, for a request whose size
  computation is exact (\<open>sz + 16 < 2^53\<close>), a successful \<open>mm_malloc\<close> returns the
  address 8 bytes after the header of the block; the header, not the payload, is a
  multiple of 32 bytes away from \<open>heap_start\<close>. Header and footer tag carry the size
  \<open>roundUp(sz + 2 * TYPE_SIZE, 32)\<close> with status \<open>ALLOC\<close>, and that size less the two
  tags is at least \<open>sz\<close>.
\<close>

theorem malloc_block_layout:
  assumes wf: "heap_wf h bs" and small: "unat sz + 16 < 2 ^ 53"
    and res: "mm_malloc h sz = Some (Inr (h', p))"
  shows "32 dvd unat (HDRP p - heap_start h) \<and> unat (p - heap_start h) mod 32 = 8
    \<and> GET (mem h') (HDRP p) = PACK (alloc_size_of sz) ALLOC
    \<and> GET (mem h') (FTRP (mem h') p) = PACK (alloc_size_of sz) ALLOC
    \<and> unat (alloc_size_of sz) = (unat sz + 2 * unat TYPE_SIZE + 31) div 32 * 32
    \<and> unat sz \<le> unat (alloc_size_of sz) - 2 * unat TYPE_SIZE"
proof -
  let ?A = "alloc_size_of sz" and ?hs = "heap_start h"
  from mm_malloc_spec [OF wf small] res have "malloc_post h bs ?A (Inr (h', p))" by auto
  then obtain xs ys where p: "p = ?hs + of_nat (span xs) + 8"
    and wf': "heap_wf h' (xs @ (?A, True) # ys)" and hs: "heap_start h' = ?hs"
    unfolding malloc_post_def by auto
  from wf' have seg: "segment (mem h') ?hs (heap_end h') (xs @ (?A, True) # ys)"
    by (simp add: heap_wf_def hs)
  note hd = seg_hdr [OF seg]
  from seg have sp: "unat ?hs + span xs + unat ?A + span ys = unat (heap_end h')"
    and ok: "list_all block_ok xs"
    by (simp_all add: segment_def)
  have lt: "span xs + 8 < 2 ^ 64" using sp hd(5) unat_lt [of "heap_end h'"] by simp
  have h: "HDRP p = ?hs + of_nat (span xs)" by (simp add: p HDRP_def PREV_PTR_def TYPE_SIZE_def)
  have "unat (HDRP p - ?hs) = span xs"
    using lt by (simp add: h unat_of_nat)
  then have 1: "32 dvd unat (HDRP p - ?hs)" using span_dvd [OF ok] by simp
  have "p - ?hs = of_nat (span xs + 8)" by (simp add: p)
  then have "unat (p - ?hs) = span xs + 8" using lt by (simp only: unat_of_nat) simp
  then have 2: "unat (p - ?hs) mod 32 = 8" using span_dvd [OF ok] by (auto elim!: dvdE)
  have 3: "GET (mem h') (HDRP p) = PACK ?A ALLOC" using hd(2) by (simp add: h tag_alloc)
  have "GET_SIZE (mem h') (HDRP p) = ?A"
    using hd(2,5,6) unfolding h
    by (intro GET_SIZE_tag [where b = "(?A, True)", simplified]) (simp_all add: block_ok_def)
  then have "FTRP (mem h') p = ?hs + of_nat (span xs) + ?A - TYPE_SIZE"
    by (simp add: FTRP_def h)
  then have 4: "GET (mem h') (FTRP (mem h') p) = PACK ?A ALLOC" using hd(3) by (simp add: tag_alloc)
  from alloc_size_small [OF small] 1 2 3 4 show ?thesis
    by (simp add: TYPE_SIZE_def)
qed

theorem malloc_block_layout_witness:
  "heap_wf (fresh ap_FirstFit) [(4032, False)] \<and> unat (16 :: ulong) + 16 < 2 ^ 53
   \<and> mm_malloc (fresh ap_FirstFit) 16 =
       Some (Inr (arena ap_FirstFit False 0
         (stores [(65560, 1), (65568, 33), (65592, 33), (65600, 4000), (69592, 4000),
                  (69600, 1)]), 65576))
   \<and> 32 dvd unat (HDRP 65576 - heap_start (fresh ap_FirstFit))
   \<and> unat (65576 - heap_start (fresh ap_FirstFit)) mod 32 = 8
   \<and> GET (stores [(65560, 1), (65568, 33), (65592, 33), (65600, 4000), (69592, 4000),
                  (69600, 1)]) (HDRP 65576) = PACK (alloc_size_of 16) ALLOC
   \<and> unat (alloc_size_of 16) = 32
   \<and> unat (16 :: ulong) \<le> unat (alloc_size_of 16) - 2 * unat TYPE_SIZE"
  using malloc_block_layout [OF fresh_wf _ ff_malloc_a] fresh_wf ff_malloc_a
  by (simp add: arena_sel TYPE_SIZE_def)

subsection \<open>Resizing with a size that wraps\<close>

text \<open>The calls \<open>b = mm_malloc(48)\<close> on the fresh heap and \<open>mm_realloc(b, 2^64 - 15)\<close>
  with a word stored at \<open>b + 16\<close>.\<close>

lemma ff_malloc_48:
  "mm_malloc (fresh ap_FirstFit) 48 =
     Some (Inr (arena ap_FirstFit False 0
       (stores [(65560, 1), (65568, 65), (65624, 65), (65632, 3968), (69592, 3968),
                (69600, 1)]), 65576))"
  by (simp add: eval_simps)

lemma ff_realloc_wrap:
  "mm_realloc (arena ap_FirstFit False 0
       (stores [(65560, 1), (65568, 65), (65592, 0x1122334455667788), (65624, 65),
                (65632, 3968), (69592, 3968), (69600, 1)])) 65576 (- 15) =
     Some (Inr (arena ap_FirstFit False 0
       (stores [(65560, 1), (65568, 33), (65592, 33), (65600, 4000), (65624, 32),
                (65632, 3968), (69592, 4000), (69600, 1)]), 65576))"
  by (simp add: eval_simps)

text \<open>
  C7. \<open>b = mm_malloc(48)\<close> returns a block of 64 bytes with 48 bytes of payload; the
  caller stores a word at \<open>b + 16\<close>. \<open>mm_realloc(b, 2^64 - 15)\<close> computes the block
  size 32 from the wrapped sum \<open>size + 16 = 1\<close>, shrinks the block in place and returns
  \<open>b\<close>; the footer of the shrunk block now stands at \<open>b + 16\<close>, where the payload word
  was.
\<close>

theorem realloc_overwrites_payload:
  "addr_of (mm_malloc (fresh ap_FirstFit) 48) = Some 65576
   \<and> GET (mem ((heap_of (mm_malloc (fresh ap_FirstFit) 48))
        \<lparr>mem := PUT (mem (heap_of (mm_malloc (fresh ap_FirstFit) 48))) (65576 + 16)
           0x1122334455667788\<rparr>)) (65576 + 16) = 0x1122334455667788
   \<and> addr_of (mm_realloc ((heap_of (mm_malloc (fresh ap_FirstFit) 48))
        \<lparr>mem := PUT (mem (heap_of (mm_malloc (fresh ap_FirstFit) 48))) (65576 + 16)
           0x1122334455667788\<rparr>) 65576 (- 15)) = Some 65576
   \<and> GET (mem (heap_of (mm_realloc ((heap_of (mm_malloc (fresh ap_FirstFit) 48))
        \<lparr>mem := PUT (mem (heap_of (mm_malloc (fresh ap_FirstFit) 48))) (65576 + 16)
           0x1122334455667788\<rparr>) 65576 (- 15)))) (65576 + 16) = 33"
  by (simp add: ff_malloc_48 ff_realloc_wrap heap_of_def addr_of_def arena_sel PUT_stores
      GET_stores)

end
